theory Spec2Isabelle
  imports Main
begin

section \<open>Go values: slices, run-time panics, formatting\<close>

text \<open>
  The program is \<^verbatim>\<open>course_work/main.go\<close>. A Go \<^verbatim>\<open>string\<close> is a sequence of bytes,
  \<^verbatim>\<open>len\<close> counts bytes and \<^verbatim>\<open>s[i]\<close> reads one byte, so a string is a \<^typ>\<open>char list\<close>
  (a \<^typ>\<open>char\<close> is one byte). A Go \<^verbatim>\<open>int\<close> is modelled by \<^typ>\<open>int\<close>: every integer of
  the program is an index into, or a count bounded by twice the length of, a string held
  in memory, so the 64-bit range is never left. A slice \<^verbatim>\<open>[]int\<close> is an \<^typ>\<open>int list\<close>;
  every slice a \<^verbatim>\<open>Step\<close> holds is allocated by \<^verbatim>\<open>make\<close> for that step alone, so values
  (not references) describe it.

  Reading or writing a slice or a string out of range panics in Go. The panic is a value
  of the model: every access goes through \<open>index\<close> or \<open>assign\<close>.
\<close>

datatype error = IndexOutOfRange

definition index :: "'a list \<Rightarrow> int \<Rightarrow> error + 'a" where
  "index xs i = (if 0 \<le> i \<and> i < int (length xs) then Inr (xs ! nat i) else Inl IndexOutOfRange)"

definition assign :: "'a list \<Rightarrow> int \<Rightarrow> 'a \<Rightarrow> error + 'a list" where
  "assign xs i v = (if 0 \<le> i \<and> i < int (length xs) then Inr (xs[nat i := v]) else Inl IndexOutOfRange)"

definition bind :: "error + 'a \<Rightarrow> ('a \<Rightarrow> error + 'b) \<Rightarrow> error + 'b" where
  "bind r f = (case r of Inl e \<Rightarrow> Inl e | Inr v \<Rightarrow> f v)"

text \<open>\<^verbatim>\<open>make([]int, n)\<close> and the builtin \<^verbatim>\<open>copy(dst, src)\<close>, which copies
  \<^verbatim>\<open>min(len(dst), len(src))\<close> elements.\<close>

definition make_slice :: "nat \<Rightarrow> int list" where
  "make_slice n = replicate n 0"

definition copy :: "'a list \<Rightarrow> 'a list \<Rightarrow> 'a list" where
  "copy dst src = take (length dst) src @ drop (length src) dst"

text \<open>
  \<^verbatim>\<open>fmt.Sprintf\<close> is used with two verbs only: \<^verbatim>\<open>%d\<close> on an \<^verbatim>\<open>int\<close> (decimal, with a
  minus sign) and \<^verbatim>\<open>%c\<close> on a \<^verbatim>\<open>byte\<close> (the UTF-8 encoding of the code point whose number
  is the byte: one byte below 128, two bytes from 128 on).
\<close>

fun digits :: "nat \<Rightarrow> string" where
  "digits n = (if n < 10 then [char_of (48 + n)] else digits (n div 10) @ [char_of (48 + n mod 10)])"

definition fmt_d :: "int \<Rightarrow> string" where
  "fmt_d v = (if v < 0 then CHR ''-'' # digits (nat (- v)) else digits (nat v))"

definition fmt_c :: "char \<Rightarrow> string" where
  "fmt_c c = (let b = (of_char c :: nat) in
     if b < 128 then [c] else [char_of (192 + b div 64), char_of (128 + b mod 64)])"

section \<open>The data model\<close>

record Step =
  TextIndex :: int
  PatternIndex :: int
  Match :: bool
  Shift :: bool
  Status :: string
  FailureValue :: int
  Comparisons :: int
  PrefixFunction :: "int list"
  HighlightPrefixIndex :: int

record KMPResult =
  FailureFunction :: "int list"
  Steps :: "Step list"
  Found :: bool
  Positions :: "int list"
  Comparisons :: int
  Error :: string

section \<open>buildFailureFunction\<close>

text \<open>
  The inner loop \<^verbatim>\<open>for j > 0 && pattern[i] != pattern[j] { j = failure[j-1] }\<close>.
  Nothing in the loop itself bounds the number of iterations (that depends on the
  contents of \<open>failure\<close>), so the result is an option: \<open>None\<close> is a loop that never ends.
\<close>

partial_function (option) fallback :: "string \<Rightarrow> int list \<Rightarrow> int \<Rightarrow> int \<Rightarrow> (error + int) option" where
  "fallback pattern failure i j =
     (if j > 0 then
        (case bind (index pattern i) (\<lambda>a. bind (index pattern j) (\<lambda>b. Inr (a \<noteq> b))) of
           Inl e \<Rightarrow> Some (Inl e)
         | Inr differ \<Rightarrow>
             if differ then
               (case index failure (j - 1) of
                  Inl e \<Rightarrow> Some (Inl e)
                | Inr j' \<Rightarrow> fallback pattern failure i j')
             else Some (Inr j))
      else Some (Inr j))"

text \<open>One iteration of \<^verbatim>\<open>for i := 1; i < m; i++\<close>, on the variables \<open>failure\<close> and \<open>j\<close>.\<close>

definition failure_body :: "string \<Rightarrow> int \<Rightarrow> int list \<Rightarrow> int \<Rightarrow> (error + int list \<times> int) option" where
  "failure_body pattern i failure j =
     (case bind (index pattern i) (\<lambda>a. bind (index pattern j) (\<lambda>b. Inr (a = b))) of
        Inl e \<Rightarrow> Some (Inl e)
      | Inr equal \<Rightarrow>
          if equal then
            Some (bind (assign failure i (j + 1)) (\<lambda>failure'. Inr (failure', j + 1)))
          else
            (case fallback pattern failure i j of
               None \<Rightarrow> None
             | Some (Inl e) \<Rightarrow> Some (Inl e)
             | Some (Inr j1) \<Rightarrow>
                 Some (bind (index pattern i) (\<lambda>a. bind (index pattern j1) (\<lambda>b.
                   let j2 = (if a = b then j1 + 1 else j1) in
                   bind (assign failure i j2) (\<lambda>failure'. Inr (failure', j2)))))))"

partial_function (option) failure_loop :: "string \<Rightarrow> int \<Rightarrow> int list \<Rightarrow> int \<Rightarrow> (error + int list) option" where
  "failure_loop pattern i failure j =
     (if i < int (length pattern) then
        (case failure_body pattern i failure j of
           None \<Rightarrow> None
         | Some (Inl e) \<Rightarrow> Some (Inl e)
         | Some (Inr (failure', j')) \<Rightarrow> failure_loop pattern (i + 1) failure' j')
      else Some (Inr failure))"

declare fallback.simps [code]

declare failure_loop.simps [code]

definition buildFailureFunction :: "string \<Rightarrow> (error + int list) option" where
  "buildFailureFunction pattern =
     (case assign (make_slice (length pattern)) 0 0 of
        Inl e \<Rightarrow> Some (Inl e)
      | Inr failure \<Rightarrow> failure_loop pattern 1 failure 0)"

section \<open>searchKMP\<close>

text \<open>The variables of the scan loop that change from one iteration to the next.\<close>

record scan_state =
  scan_i :: int
  scan_j :: int
  scan_comparisons :: int
  scan_maxPrefix :: "int list"
  scan_positions :: "int list"
  scan_steps :: "Step list"

text \<open>The loop \<^verbatim>\<open>for k := i - m; k < i; k++\<close> that relabels the matched span.\<close>

function relabel :: "int \<Rightarrow> int \<Rightarrow> int \<Rightarrow> int \<Rightarrow> int list \<Rightarrow> error + int list" where
  "relabel n m i k maxPrefix =
     (if k < i then
        (if k \<ge> 0 \<and> k < n then
           bind (assign maxPrefix k (k - (i - m) + 1)) (\<lambda>maxPrefix'. relabel n m i (k + 1) maxPrefix')
         else relabel n m i (k + 1) maxPrefix)
      else Inr maxPrefix)"
  by pat_completeness auto

termination
  by (relation "measure (\<lambda>(n, m, i, k, maxPrefix). nat (i - k))") auto

declare relabel.simps [simp del]

definition apostrophe :: string where
  "apostrophe = [CHR 0x27]"

text \<open>One iteration of \<^verbatim>\<open>for i < n\<close>.\<close>

definition scan_body :: "string \<Rightarrow> string \<Rightarrow> int list \<Rightarrow> scan_state \<Rightarrow> error + scan_state" where
  "scan_body text pattern failure s =
     (let n = int (length text); m = int (length pattern);
          i = scan_i s; j = scan_j s; maxPrefix = scan_maxPrefix s;
          comparisons = scan_comparisons s + 1
      in
      bind (index text i) (\<lambda>ti. bind (index pattern j) (\<lambda>pj.
      let match = (ti = pj);
          step = \<lparr>TextIndex = i, PatternIndex = j, Match = match, Shift = False,
                  Status = [], FailureValue = 0, Step.Comparisons = comparisons,
                  PrefixFunction = make_slice (nat n), HighlightPrefixIndex = 0\<rparr>;
          step = step\<lparr>PrefixFunction := copy (PrefixFunction step) maxPrefix\<rparr>;
          step = step\<lparr>HighlightPrefixIndex := i\<rparr>
      in
      if match then
        bind (index maxPrefix i) (\<lambda>old.
        bind (if j + 1 > old then assign maxPrefix i (j + 1) else Inr maxPrefix) (\<lambda>maxPrefix.
        bind (index maxPrefix i) (\<lambda>new.
        bind (assign (PrefixFunction step) i new) (\<lambda>pf.
        let step = step\<lparr>PrefixFunction := pf,
                   Status := ''Comparing text['' @ fmt_d i @ '']='' @ apostrophe @ fmt_c ti @ apostrophe
                     @ '' with pattern['' @ fmt_d j @ '']='' @ apostrophe @ fmt_c pj @ apostrophe
                     @ '': match found. Advancing to text['' @ fmt_d (i + 1)
                     @ ''] and pattern['' @ fmt_d (j + 1) @ ''].''\<rparr>;
            steps = scan_steps s @ [step];
            i = i + 1;
            j = j + 1
        in
        if j = m then
          let positions = scan_positions s @ [i - j] in
          bind (relabel n m i (i - m) maxPrefix) (\<lambda>maxPrefix.
          bind (index failure (j - 1)) (\<lambda>fv.
          let step = \<lparr>TextIndex = i - 1, PatternIndex = j - 1, Match = True, Shift = True,
                      Status = ''Full pattern match found at text index '' @ fmt_d (i - j)
                        @ ''! Using failure function value '' @ fmt_d fv
                        @ '' to shift pattern to pattern['' @ fmt_d fv @ ''].'',
                      FailureValue = fv, Step.Comparisons = comparisons,
                      PrefixFunction = make_slice (nat n), HighlightPrefixIndex = - 1\<rparr>;
              step = step\<lparr>PrefixFunction := copy (PrefixFunction step) maxPrefix\<rparr>
          in
          Inr \<lparr>scan_i = i, scan_j = fv, scan_comparisons = comparisons,
               scan_maxPrefix = maxPrefix, scan_positions = positions,
               scan_steps = steps @ [step]\<rparr>))
        else
          Inr \<lparr>scan_i = i, scan_j = j, scan_comparisons = comparisons,
               scan_maxPrefix = maxPrefix, scan_positions = scan_positions s,
               scan_steps = steps\<rparr>))))
      else if j > 0 then
        bind (index failure (j - 1)) (\<lambda>fv.
        let step = step\<lparr>Status := ''Mismatch at text['' @ fmt_d i @ '']='' @ apostrophe @ fmt_c ti @ apostrophe
                     @ '' and pattern['' @ fmt_d j @ '']='' @ apostrophe @ fmt_c pj @ apostrophe
                     @ ''. Using failure function value '' @ fmt_d fv
                     @ '' to shift pattern to pattern['' @ fmt_d fv @ ''].'',
                   FailureValue := fv, HighlightPrefixIndex := i\<rparr>;
            steps = scan_steps s @ [step];
            j = fv;
            step = \<lparr>TextIndex = i, PatternIndex = j, Match = False, Shift = True,
                    Status = ''Pattern shifted to align at pattern['' @ fmt_d j
                      @ ''] with text['' @ fmt_d i @ '']='' @ apostrophe @ fmt_c ti @ apostrophe
                      @ '' based on failure function.'',
                    FailureValue = 0, Step.Comparisons = comparisons,
                    PrefixFunction = make_slice (nat n), HighlightPrefixIndex = i\<rparr>;
            step = step\<lparr>PrefixFunction := copy (PrefixFunction step) maxPrefix\<rparr>
        in
        Inr \<lparr>scan_i = i, scan_j = j, scan_comparisons = comparisons,
             scan_maxPrefix = maxPrefix, scan_positions = scan_positions s,
             scan_steps = steps @ [step]\<rparr>)
      else
        bind (index pattern 0) (\<lambda>p0.
        let step = step\<lparr>Status := ''Mismatch at text['' @ fmt_d i @ '']='' @ apostrophe @ fmt_c ti @ apostrophe
                     @ '' and pattern[0]='' @ apostrophe @ fmt_c p0 @ apostrophe
                     @ ''. No prefix to use, advancing to text['' @ fmt_d (i + 1) @ ''].'',
                   HighlightPrefixIndex := i\<rparr>
        in
        Inr \<lparr>scan_i = i + 1, scan_j = j, scan_comparisons = comparisons,
             scan_maxPrefix = maxPrefix, scan_positions = scan_positions s,
             scan_steps = scan_steps s @ [step]\<rparr>))))"

text \<open>
  The loop \<^verbatim>\<open>for i < n\<close>. Whether it ends depends on the table \<open>failure\<close>, so the result
  is an option again.
\<close>

partial_function (option) scan_loop :: "string \<Rightarrow> string \<Rightarrow> int list \<Rightarrow> scan_state \<Rightarrow> (error + scan_state) option" where
  "scan_loop text pattern failure s =
     (if scan_i s < int (length text) then
        (case scan_body text pattern failure s of
           Inl e \<Rightarrow> Some (Inl e)
         | Inr s' \<Rightarrow> scan_loop text pattern failure s')
      else Some (Inr s))"

declare scan_loop.simps [code]

definition scan_init :: "string \<Rightarrow> scan_state" where
  "scan_init text =
     \<lparr>scan_i = 0, scan_j = 0, scan_comparisons = 0, scan_maxPrefix = make_slice (length text),
      scan_positions = [], scan_steps = []\<rparr>"

text \<open>
  A composite literal \<^verbatim>\<open>KMPResult{Error: ...}\<close> leaves the other fields at their zero
  values: nil slices (no elements), \<^verbatim>\<open>false\<close> and \<^verbatim>\<open>0\<close>.
\<close>

definition searchKMP :: "string \<Rightarrow> string \<Rightarrow> (error + KMPResult) option" where
  "searchKMP text pattern =
     (if pattern = [] then
        Some (Inr \<lparr>FailureFunction = [], Steps = [], Found = False, Positions = [],
                   KMPResult.Comparisons = 0, Error = ''Pattern cannot be empty''\<rparr>)
      else if text = [] then
        Some (Inr \<lparr>FailureFunction = [], Steps = [], Found = False, Positions = [],
                   KMPResult.Comparisons = 0, Error = ''Text cannot be empty''\<rparr>)
      else
        (case buildFailureFunction pattern of
           None \<Rightarrow> None
         | Some (Inl e) \<Rightarrow> Some (Inl e)
         | Some (Inr failure) \<Rightarrow>
             (case scan_loop text pattern failure (scan_init text) of
                None \<Rightarrow> None
              | Some (Inl e) \<Rightarrow> Some (Inl e)
              | Some (Inr s) \<Rightarrow>
                  Some (Inr \<lparr>FailureFunction = failure, Steps = scan_steps s,
                             Found = (length (scan_positions s) > 0),
                             Positions = scan_positions s,
                             KMPResult.Comparisons = scan_comparisons s, Error = []\<rparr>))))"

section \<open>The states of the scan\<close>

text \<open>
  The states the loop of \<open>searchKMP\<close> is in at the head of an iteration: the initial state,
  and every state that one iteration, run from such a state while \<open>i < n\<close>, ends in.
  \<open>T\<close> is the text, \<open>P\<close> the pattern and \<open>f\<close> the failure table.
\<close>

inductive reachable :: "string \<Rightarrow> string \<Rightarrow> int list \<Rightarrow> scan_state \<Rightarrow> bool"
  for T P f where
  start: "reachable T P f (scan_init T)"
| iterate: "reachable T P f s \<Longrightarrow> scan_i s < int (length T) \<Longrightarrow>
    scan_body T P f s = Inr s' \<Longrightarrow> reachable T P f s'"

section \<open>The notions of the specification\<close>

text \<open>
  The specification's words for the table: entry \<open>i\<close> is the length of the longest proper
  prefix of the pattern that is also a suffix of the pattern prefix ending at position \<open>i\<close>.
  \<open>border xs k\<close> says that the first \<open>k\<close> elements of \<open>xs\<close>, fewer than all of them, are also
  its last \<open>k\<close> elements; \<open>longest_border\<close> is the largest such \<open>k\<close>.
  \<open>brute_force\<close> is the scan that tries every position of the text in turn and compares the
  pattern with the text from there.
\<close>

definition border :: "'a list \<Rightarrow> nat \<Rightarrow> bool" where
  "border xs k \<longleftrightarrow> k < length xs \<and> take k xs = drop (length xs - k) xs"

definition longest_border :: "'a list \<Rightarrow> nat" where
  "longest_border xs = Max (set (filter (border xs) [0..<length xs]))"

definition brute_force :: "string \<Rightarrow> string \<Rightarrow> nat list" where
  "brute_force text pattern =
     filter (\<lambda>p. take (length pattern) (drop p text) = pattern) [0..<length text]"

section \<open>Notions used in the proofs\<close>

text \<open>
  \<open>occurs P T p k\<close>: the first \<open>k\<close> elements of \<open>P\<close> stand in \<open>T\<close> from position \<open>p\<close> on.
  \<open>pborder P j k\<close>: \<open>k\<close> is the length of a proper border of the first \<open>j\<close> elements of \<open>P\<close>,
  written with indices; \<open>lpb P j b\<close>: \<open>b\<close> is the largest such length.
  \<open>fb_inv\<close> is the invariant of the inner loop of \<open>buildFailureFunction\<close>, \<open>table_ok P f i\<close>
  says that the first \<open>i\<close> entries of the table \<open>f\<close> are right.
  \<open>compare_step s match st\<close>: \<open>st\<close> is the step that records the comparison made in state \<open>s\<close>;
  \<open>grown mp i j\<close> is the snapshot after a match of \<open>text[i]\<close> with \<open>pattern[j]\<close>.
  \<open>kmp_inv\<close> is the invariant of the scan on cursors and positions, \<open>trace_inv\<close> the one
  on the emitted steps.
\<close>

definition occurs :: "'a list \<Rightarrow> 'a list \<Rightarrow> nat \<Rightarrow> nat \<Rightarrow> bool" where
  "occurs P T p k \<longleftrightarrow> k \<le> length P \<and> p + k \<le> length T \<and> (\<forall>t<k. T ! (p + t) = P ! t)"

definition pborder :: "'a list \<Rightarrow> nat \<Rightarrow> nat \<Rightarrow> bool" where
  "pborder P j k \<longleftrightarrow> k < j \<and> (\<forall>t<k. P ! (j - k + t) = P ! t)"

definition lpb :: "'a list \<Rightarrow> nat \<Rightarrow> nat \<Rightarrow> bool" where
  "lpb P j b \<longleftrightarrow> pborder P j b \<and> (\<forall>k. pborder P j k \<longrightarrow> k \<le> b)"

definition fb_inv :: "'a list \<Rightarrow> nat \<Rightarrow> nat \<Rightarrow> bool" where
  "fb_inv P i j \<longleftrightarrow> pborder P i j \<and> (\<forall>k. pborder P i k \<and> j < k \<longrightarrow> P ! k \<noteq> P ! i)"

definition table_ok :: "'a list \<Rightarrow> int list \<Rightarrow> nat \<Rightarrow> bool" where
  "table_ok P f i \<longleftrightarrow> (\<forall>k<i. 0 \<le> f ! k \<and> lpb P (Suc k) (nat (f ! k)))"

definition compare_step :: "scan_state \<Rightarrow> bool \<Rightarrow> Step \<Rightarrow> bool" where
  "compare_step s match st \<longleftrightarrow>
     TextIndex st = scan_i s \<and> PatternIndex st = scan_j s \<and> Match st = match \<and> \<not> Shift st
     \<and> Step.Comparisons st = scan_comparisons s + 1 \<and> HighlightPrefixIndex st = scan_i s"

definition grown :: "int list \<Rightarrow> nat \<Rightarrow> nat \<Rightarrow> int list" where
  "grown mp i j = (if int j + 1 > mp ! i then mp[i := int j + 1] else mp)"

definition kmp_inv :: "string \<Rightarrow> string \<Rightarrow> scan_state \<Rightarrow> bool" where
  "kmp_inv T P s \<longleftrightarrow>
     (\<exists>i j. scan_i s = int i \<and> scan_j s = int j \<and> j < length P \<and> j \<le> i \<and> i \<le> length T
        \<and> length (scan_maxPrefix s) = length T
        \<and> occurs P T (i - j) j
        \<and> scan_positions s =
            map int (filter (\<lambda>p. occurs P T p (length P)) [0..<i - j]))"

definition trace_inv :: "string \<Rightarrow> string \<Rightarrow> scan_state \<Rightarrow> bool" where
  "trace_inv T P s \<longleftrightarrow>
     sorted (map Step.Comparisons (scan_steps s))
     \<and> (\<forall>st\<in>set (scan_steps s). Step.Comparisons st \<le> scan_comparisons s
          \<and> 0 \<le> TextIndex st \<and> TextIndex st < int (length T)
          \<and> 0 \<le> PatternIndex st \<and> PatternIndex st < int (length P))
     \<and> (scan_steps s \<noteq> [] \<longrightarrow> Step.Comparisons (last (scan_steps s)) = scan_comparisons s)
     \<and> (scan_steps s = [] \<longrightarrow> scan_i s = 0)
     \<and> 0 \<le> scan_comparisons s \<and> scan_comparisons s + scan_j s \<le> 2 * scan_i s"

section \<open>Panics and binds\<close>

lemma bind_Inr [simp]: "bind (Inr v) f = f v"
  by (simp add: bind_def)

lemma bind_Inl [simp]: "bind (Inl e) f = Inl e"
  by (simp add: bind_def)

lemma index_nat [simp]: "i < length xs \<Longrightarrow> index xs (int i) = Inr (xs ! i)"
  by (simp add: index_def)

lemma assign_nat [simp]: "i < length xs \<Longrightarrow> assign xs (int i) v = Inr (xs[i := v])"
  by (simp add: assign_def)

lemma index_pred [simp]: "0 < i \<Longrightarrow> i \<le> length xs \<Longrightarrow> index xs (int i - 1) = Inr (xs ! (i - 1))"
  using index_nat [of "i - 1" xs] by (simp add: of_nat_diff)

section \<open>Borders\<close>

lemma pborder_nth: "pborder P j k \<Longrightarrow> t < k \<Longrightarrow> P ! (j - k + t) = P ! t"
  unfolding pborder_def by blast

lemma pborder_less: "pborder P j k \<Longrightarrow> k < j"
  by (simp add: pborder_def)

lemma pborder_trans:
  assumes jk: "pborder P j k" and kl: "pborder P k l"
  shows "pborder P j l"
proof -
  have lk: "l < k" and kj: "k < j"
    using jk kl by (simp_all add: pborder_def)
  have "P ! (j - l + t) = P ! t" if t: "t < l" for t
  proof -
    have "P ! (j - k + (k - l + t)) = P ! (k - l + t)"
      by (rule pborder_nth [OF jk]) (use t lk in simp)
    moreover have "j - k + (k - l + t) = j - l + t"
      using lk kj by simp
    moreover have "P ! (k - l + t) = P ! t"
      by (rule pborder_nth [OF kl t])
    ultimately show ?thesis by simp
  qed
  with lk kj show ?thesis by (simp add: pborder_def)
qed

lemma pborder_smaller:
  assumes jk: "pborder P j k" and jl: "pborder P j l" and lk: "l < k"
  shows "pborder P k l"
proof -
  have kj: "k < j" using jk by (rule pborder_less)
  have "P ! (k - l + t) = P ! t" if t: "t < l" for t
  proof -
    have "P ! (j - k + (k - l + t)) = P ! (k - l + t)"
      by (rule pborder_nth [OF jk]) (use t lk in simp)
    moreover have "j - k + (k - l + t) = j - l + t"
      using lk kj by simp
    moreover have "P ! (j - l + t) = P ! t"
      by (rule pborder_nth [OF jl t])
    ultimately show ?thesis by simp
  qed
  with lk show ?thesis by (simp add: pborder_def)
qed

lemma pborder_Suc:
  assumes "k < j"
  shows "pborder P (Suc j) (Suc k) \<longleftrightarrow> pborder P j k \<and> P ! j = P ! k"
proof
  assume b: "pborder P (Suc j) (Suc k)"
  have "P ! (j - k + t) = P ! t" if "t < k" for t
    using pborder_nth [OF b, of t] that by simp
  moreover have "P ! j = P ! k"
    using pborder_nth [OF b, of k] assms by simp
  ultimately show "pborder P j k \<and> P ! j = P ! k"
    using assms by (simp add: pborder_def)
next
  assume b: "pborder P j k \<and> P ! j = P ! k"
  have "P ! (Suc j - Suc k + t) = P ! t" if "t < Suc k" for t
  proof (cases "t = k")
    case True
    then show ?thesis using b assms by simp
  next
    case False
    then have "t < k" using that by simp
    then have "P ! (j - k + t) = P ! t" using b pborder_nth by blast
    then show ?thesis by simp
  qed
  then show "pborder P (Suc j) (Suc k)"
    using assms by (simp add: pborder_def)
qed

lemma lpb_less: "lpb P j b \<Longrightarrow> b < j"
  by (simp add: lpb_def pborder_def)

lemma lpb_one: "lpb P (Suc 0) 0"
  by (simp add: lpb_def pborder_def)

lemma fb_inv_init: "lpb P i j \<Longrightarrow> fb_inv P i j"
  by (auto simp: lpb_def fb_inv_def)

lemma fb_inv_step:
  assumes inv: "fb_inv P i j" and ne: "P ! i \<noteq> P ! j" and b: "lpb P j b"
  shows "fb_inv P i b"
proof -
  have ij: "pborder P i j" using inv by (simp add: fb_inv_def)
  have jb: "pborder P j b" using b by (simp add: lpb_def)
  have "P ! k \<noteq> P ! i" if k: "pborder P i k" "b < k" for k
  proof (cases "j < k")
    case True
    then show ?thesis using inv k by (simp add: fb_inv_def)
  next
    case False
    show ?thesis
    proof (cases "k = j")
      case True
      then show ?thesis using ne by simp
    next
      case False
      then have "k < j" using \<open>\<not> j < k\<close> by simp
      then have "pborder P j k" using pborder_smaller [OF ij k(1)] by simp
      then have "k \<le> b" using b by (simp add: lpb_def)
      then show ?thesis using k(2) by simp
    qed
  qed
  then show ?thesis
    using pborder_trans [OF ij jb] by (simp add: fb_inv_def)
qed

lemma fb_inv_match:
  assumes inv: "fb_inv P i j" and eq: "P ! i = P ! j"
  shows "lpb P (Suc i) (Suc j)"
proof -
  have ij: "pborder P i j" using inv by (simp add: fb_inv_def)
  then have lt: "j < i" by (rule pborder_less)
  have "k \<le> Suc j" if k: "pborder P (Suc i) k" for k
  proof (cases k)
    case 0
    then show ?thesis by simp
  next
    case (Suc k')
    then have "k' < i" using pborder_less [OF k] by simp
    then have "pborder P i k' \<and> P ! i = P ! k'"
      using k Suc pborder_Suc [of k' i P] by simp
    then have "\<not> j < k'" using inv by (auto simp: fb_inv_def)
    then show ?thesis using Suc by simp
  qed
  moreover have "pborder P (Suc i) (Suc j)"
    using pborder_Suc [OF lt, of P] ij eq by simp
  ultimately show ?thesis by (simp add: lpb_def)
qed

lemma fb_inv_zero:
  assumes inv: "fb_inv P i 0" and ne: "P ! i \<noteq> P ! 0"
  shows "lpb P (Suc i) 0"
proof -
  have "k = 0" if k: "pborder P (Suc i) k" for k
  proof (cases k)
    case 0
    then show ?thesis by simp
  next
    case (Suc k')
    then have "k' < i" using pborder_less [OF k] by simp
    then have *: "pborder P i k' \<and> P ! i = P ! k'"
      using k Suc pborder_Suc [of k' i P] by simp
    then have "k' = 0" using inv by (cases "k' = 0") (auto simp: fb_inv_def)
    then show ?thesis using * ne by simp
  qed
  then show ?thesis by (auto simp: lpb_def pborder_def)
qed

lemma lpb_Suc_match: "lpb P j b \<Longrightarrow> P ! j = P ! b \<Longrightarrow> lpb P (Suc j) (Suc b)"
  by (rule fb_inv_match [OF fb_inv_init])

lemma occurs_nth: "occurs P T p k \<Longrightarrow> t < k \<Longrightarrow> T ! (p + t) = P ! t"
  by (simp add: occurs_def)

lemma occurs_zero: "p \<le> length T \<Longrightarrow> occurs P T p 0"
  by (simp add: occurs_def)

lemma occurs_mono: "occurs P T p m \<Longrightarrow> k \<le> m \<Longrightarrow> occurs P T p k"
  by (simp add: occurs_def)

lemma occurs_Suc:
  "occurs P T p k \<Longrightarrow> k < length P \<Longrightarrow> p + k < length T \<Longrightarrow> T ! (p + k) = P ! k \<Longrightarrow>
   occurs P T p (Suc k)"
  by (auto simp: occurs_def less_Suc_eq)

lemma occurs_overlap:
  assumes q: "occurs P T q j" and p: "occurs P T p k" and eq: "p + k = q + j" and lt: "q < p"
  shows "pborder P j k"
proof -
  have kj: "k < j" using eq lt by simp
  have "P ! (j - k + t) = P ! t" if t: "t < k" for t
  proof -
    have "T ! (q + (j - k + t)) = P ! (j - k + t)"
      by (rule occurs_nth [OF q]) (use t kj in simp)
    moreover have "q + (j - k + t) = p + t"
      using eq kj by simp
    moreover have "T ! (p + t) = P ! t"
      by (rule occurs_nth [OF p t])
    ultimately show ?thesis by simp
  qed
  with kj show ?thesis by (simp add: pborder_def)
qed

lemma occurs_shift:
  assumes q: "occurs P T q j" and b: "pborder P j b"
  shows "occurs P T (q + j - b) b"
proof -
  have bj: "b < j" using b by (rule pborder_less)
  have "T ! (q + j - b + t) = P ! t" if t: "t < b" for t
  proof -
    have "T ! (q + (j - b + t)) = P ! (j - b + t)"
      by (rule occurs_nth [OF q]) (use t bj in simp)
    moreover have "q + (j - b + t) = q + j - b + t"
      using bj by simp
    moreover have "P ! (j - b + t) = P ! t"
      by (rule pborder_nth [OF b t])
    ultimately show ?thesis by simp
  qed
  then show ?thesis
    using q bj by (simp add: occurs_def)
qed

section \<open>The failure table is the table of longest borders\<close>

lemma table_ok_lpb: "table_ok P f i \<Longrightarrow> 0 < j \<Longrightarrow> j \<le> i \<Longrightarrow> lpb P j (nat (f ! (j - 1)))"
  unfolding table_ok_def by (metis Suc_pred' less_Suc_eq_le Suc_le_eq)

lemma table_ok_nonneg: "table_ok P f i \<Longrightarrow> k < i \<Longrightarrow> 0 \<le> f ! k"
  by (simp add: table_ok_def)

lemma table_ok_update:
  "table_ok P f i \<Longrightarrow> lpb P (Suc i) b \<Longrightarrow> i < length f \<Longrightarrow> table_ok P (f[i := int b]) (Suc i)"
  by (auto simp: table_ok_def less_Suc_eq nth_list_update)

lemma fallback_correct:
  assumes tab: "table_ok P f i" and i: "i < length P" and len: "length f = length P"
    and inv: "fb_inv P i j"
  shows "\<exists>b. fallback P f (int i) (int j) = Some (Inr (int b)) \<and> fb_inv P i b
             \<and> (b = 0 \<or> P ! i = P ! b)"
  using inv
proof (induction j rule: less_induct)
  case (less j)
  have ji: "j < i"
    using less.prems by (simp add: fb_inv_def pborder_def)
  show ?case
  proof (cases "0 < j \<and> P ! i \<noteq> P ! j")
    case True
    define b where "b = nat (f ! (j - 1))"
    have nonneg: "0 \<le> f ! (j - 1)"
      using table_ok_nonneg [OF tab, of "j - 1"] ji by simp
    have b: "lpb P j b"
      unfolding b_def using table_ok_lpb [OF tab, of j] True ji by simp
    have "b < j" using b by (rule lpb_less)
    moreover have "fb_inv P i b"
      using fb_inv_step [OF less.prems _ b] True by simp
    ultimately obtain c where c: "fallback P f (int i) (int b) = Some (Inr (int c))"
        "fb_inv P i c" "c = 0 \<or> P ! i = P ! c"
      using less.IH by blast
    have "fallback P f (int i) (int j) = fallback P f (int i) (f ! (j - 1))"
      using True ji i len by (subst fallback.simps) simp
    also have "f ! (j - 1) = int b"
      using nonneg by (simp add: b_def)
    finally show ?thesis using c by auto
  next
    case False
    have "fallback P f (int i) (int j) = Some (Inr (int j))"
      using False ji i by (subst fallback.simps) auto
    then show ?thesis using less.prems False by auto
  qed
qed

lemma failure_body_correct:
  assumes tab: "table_ok P f i" and i: "i < length P" and len: "length f = length P"
    and j: "lpb P i j"
  shows "\<exists>b. failure_body P (int i) f (int j) = Some (Inr (f[i := int b], int b)) \<and> lpb P (Suc i) b"
proof (cases "P ! i = P ! j")
  case True
  have ji: "j < i" using j by (rule lpb_less)
  have "failure_body P (int i) f (int j) = Some (Inr (f[i := int (Suc j)], int (Suc j)))"
    using True ji i len by (simp add: failure_body_def add.commute)
  then show ?thesis using lpb_Suc_match [OF j True] by blast
next
  case False
  have ji: "j < i" using j by (rule lpb_less)
  obtain c where c: "fallback P f (int i) (int j) = Some (Inr (int c))"
      "fb_inv P i c" "c = 0 \<or> P ! i = P ! c"
    using fallback_correct [OF tab i len fb_inv_init [OF j]] by blast
  have ci: "c < i" using c(2) by (simp add: fb_inv_def pborder_def)
  show ?thesis
  proof (cases "P ! i = P ! c")
    case True
    have "failure_body P (int i) f (int j) = Some (Inr (f[i := int (Suc c)], int (Suc c)))"
      using False True ji ci i len c(1) by (simp add: failure_body_def Let_def add.commute)
    then show ?thesis using fb_inv_match [OF c(2) True] by blast
  next
    case ne: False
    then have "c = 0" using c(3) by simp
    have "failure_body P (int i) f (int j) = Some (Inr (f[i := int c], int c))"
      using False ne ji ci i len c(1) by (simp add: failure_body_def Let_def)
    then show ?thesis using fb_inv_zero [of P i] c(2) ne \<open>c = 0\<close> by auto
  qed
qed

lemma failure_loop_correct:
  assumes "table_ok P f i" and "i \<le> length P" and "length f = length P" and "lpb P i j"
  shows "\<exists>f'. failure_loop P (int i) f (int j) = Some (Inr f') \<and> length f' = length P
              \<and> table_ok P f' (length P)"
  using assms
proof (induction "length P - i" arbitrary: i f j)
  case 0
  then have "i = length P" by simp
  then have "failure_loop P (int i) f (int j) = Some (Inr f)"
    by (subst failure_loop.simps) simp
  then show ?case using 0 \<open>i = length P\<close> by simp
next
  case (Suc d)
  then have i: "i < length P" by simp
  obtain b where b: "failure_body P (int i) f (int j) = Some (Inr (f[i := int b], int b))"
      "lpb P (Suc i) b"
    using failure_body_correct [OF Suc.prems(1) i Suc.prems(3,4)] by blast
  have tab: "table_ok P (f[i := int b]) (Suc i)"
    using table_ok_update [OF Suc.prems(1) b(2)] i Suc.prems(3) by simp
  have "failure_loop P (int i) f (int j) = failure_loop P (int (Suc i)) (f[i := int b]) (int b)"
    using i b(1) by (subst failure_loop.simps) (simp add: add.commute)
  moreover have "\<exists>f'. failure_loop P (int (Suc i)) (f[i := int b]) (int b) = Some (Inr f')
      \<and> length f' = length P \<and> table_ok P f' (length P)"
    using Suc.hyps(2) i Suc.prems(3) by (intro Suc.hyps(1) [OF _ tab _ _ b(2)]) simp_all
  ultimately show ?case by simp
qed

lemma replicate_update_same: "(replicate n x)[i := x] = replicate n x"
  by (cases "i < n") (auto simp: list_eq_iff_nth_eq nth_list_update)

lemma buildFailureFunction_correct:
  assumes "P \<noteq> []"
  shows "\<exists>f. buildFailureFunction P = Some (Inr f) \<and> length f = length P
             \<and> table_ok P f (length P)"
proof -
  have "buildFailureFunction P = failure_loop P (int (Suc 0)) (replicate (length P) 0) (int 0)"
    using assms assign_nat [of 0 "replicate (length P) (0::int)" 0]
    by (simp add: buildFailureFunction_def make_slice_def replicate_update_same)
  moreover have "table_ok P (replicate (length P) 0) (Suc 0)"
    using assms by (simp add: table_ok_def lpb_one)
  ultimately show ?thesis
    using failure_loop_correct [of P "replicate (length P) 0" "Suc 0" 0] assms
    by (simp add: lpb_one Suc_le_eq)
qed

lemma border_take_iff:
  assumes "j \<le> length P"
  shows "border (take j P) k \<longleftrightarrow> pborder P j k"
proof -
  have len: "length (take j P) = j"
    using assms by simp
  have "take k (take j P) = drop (j - k) (take j P) \<longleftrightarrow> (\<forall>t<k. P ! (j - k + t) = P ! t)"
    if "k < j"
    using that assms by (auto simp: list_eq_iff_nth_eq min_def)
  then show ?thesis
    unfolding border_def pborder_def len by blast
qed

lemma longest_border_take:
  assumes j: "j \<le> length P" and b: "lpb P j b"
  shows "longest_border (take j P) = b"
proof -
  have len: "length (take j P) = j"
    using j by simp
  have "b < j" using b by (rule lpb_less)
  have "Max (set (filter (border (take j P)) [0..<j])) = b"
  proof (rule Max_eqI)
    show "finite (set (filter (border (take j P)) [0..<j]))" by simp
    show "b \<in> set (filter (border (take j P)) [0..<j])"
      using b \<open>b < j\<close> border_take_iff [OF j] by (simp add: lpb_def)
    show "\<And>y. y \<in> set (filter (border (take j P)) [0..<j]) \<Longrightarrow> y \<le> b"
      using b border_take_iff [OF j] by (simp add: lpb_def)
  qed
  then show ?thesis
    unfolding longest_border_def len .
qed

section \<open>One iteration of the scan\<close>

lemma copy_same_length [simp]: "length dst = length src \<Longrightarrow> copy dst src = src"
  by (simp add: copy_def)

lemma length_make_slice [simp]: "length (make_slice n) = n"
  by (simp add: make_slice_def)

lemma length_grown [simp]: "length (grown mp i j) = length mp"
  by (simp add: grown_def)

lemma relabel_correct:
  assumes "int (length mp) = n" and "0 \<le> k" and "i \<le> n"
  shows "\<exists>mp'. relabel n m i k mp = Inr mp' \<and> length mp' = length mp
           \<and> (\<forall>t<length mp. mp' ! t = (if k \<le> int t \<and> int t < i then int t - (i - m) + 1 else mp ! t))"
  using assms
proof (induction "nat (i - k)" arbitrary: k mp)
  case 0
  then have "relabel n m i k mp = Inr mp"
    by (subst relabel.simps) simp
  then show ?case using 0 by auto
next
  case (Suc d)
  define v where "v = k - (i - m) + 1"
  define mp1 where "mp1 = mp[nat k := v]"
  have ki: "k < i" using Suc.hyps(2) by simp
  have kn: "0 \<le> k \<and> k < n" using ki Suc.prems by simp
  have step: "relabel n m i k mp = relabel n m i (k + 1) mp1"
    using ki kn Suc.prems(1) by (subst relabel.simps) (simp add: assign_def mp1_def v_def)
  have "\<exists>mp'. relabel n m i (k + 1) mp1 = Inr mp' \<and> length mp' = length mp1
         \<and> (\<forall>t<length mp1. mp' ! t =
               (if k + 1 \<le> int t \<and> int t < i then int t - (i - m) + 1 else mp1 ! t))"
    using Suc.hyps(2) kn Suc.prems by (intro Suc.hyps(1)) (simp_all add: mp1_def)
  then obtain mp' where mp': "relabel n m i (k + 1) mp1 = Inr mp'" "length mp' = length mp1"
      "\<forall>t<length mp1. mp' ! t =
         (if k + 1 \<le> int t \<and> int t < i then int t - (i - m) + 1 else mp1 ! t)"
    by blast
  have "mp' ! t = (if k \<le> int t \<and> int t < i then int t - (i - m) + 1 else mp ! t)"
    if t: "t < length mp" for t
  proof (cases "int t = k")
    case True
    then have "t = nat k" by simp
    then show ?thesis using mp'(3) t True ki by (simp add: mp1_def v_def)
  next
    case False
    then have "t \<noteq> nat k" using kn by auto
    then show ?thesis using mp'(3) t False by (auto simp: mp1_def)
  qed
  then show ?case using step mp'(1,2) by (simp add: mp1_def)
qed

lemma index_int [simp]:
  "0 \<le> i \<Longrightarrow> i < int (length xs) \<Longrightarrow> index xs i = Inr (xs ! nat i)"
  by (simp add: index_def)

lemma nat_int_pred [simp]: "nat (int j - 1) = j - 1"
  by arith

lemma scan_body_mismatch_zero:
  assumes "scan_i s = int i" and "scan_j s = 0" and "i < length T" and "P \<noteq> []"
    and "length (scan_maxPrefix s) = length T" and "T ! i \<noteq> P ! 0"
  shows "\<exists>st. scan_body T P f s =
           Inr \<lparr>scan_i = int i + 1, scan_j = 0, scan_comparisons = scan_comparisons s + 1,
                scan_maxPrefix = scan_maxPrefix s, scan_positions = scan_positions s,
                scan_steps = scan_steps s @ [st]\<rparr>
         \<and> compare_step s False st \<and> PrefixFunction st = scan_maxPrefix s
         \<and> FailureValue st = 0"
  using assms by (simp add: scan_body_def Let_def compare_step_def)

lemma scan_body_mismatch_shift:
  assumes "scan_i s = int i" and "scan_j s = int j" and "i < length T" and "j < length P"
    and "length (scan_maxPrefix s) = length T" and "length f = length P"
    and "T ! i \<noteq> P ! j" and "0 < j"
  shows "\<exists>st st2. scan_body T P f s =
           Inr \<lparr>scan_i = int i, scan_j = f ! (j - 1), scan_comparisons = scan_comparisons s + 1,
                scan_maxPrefix = scan_maxPrefix s, scan_positions = scan_positions s,
                scan_steps = scan_steps s @ [st, st2]\<rparr>
         \<and> compare_step s False st \<and> PrefixFunction st = scan_maxPrefix s
         \<and> FailureValue st = f ! (j - 1)
         \<and> TextIndex st2 = int i \<and> PatternIndex st2 = f ! (j - 1) \<and> \<not> Match st2 \<and> Shift st2
         \<and> FailureValue st2 = 0 \<and> Step.Comparisons st2 = scan_comparisons s + 1
         \<and> PrefixFunction st2 = scan_maxPrefix s \<and> HighlightPrefixIndex st2 = int i"
  using assms by (simp add: scan_body_def Let_def compare_step_def)

lemma scan_body_match:
  assumes "scan_i s = int i" and "scan_j s = int j" and "i < length T" and "j < length P"
    and "length (scan_maxPrefix s) = length T"
    and "T ! i = P ! j" and "Suc j \<noteq> length P"
  shows "\<exists>st. scan_body T P f s =
           Inr \<lparr>scan_i = int i + 1, scan_j = int j + 1, scan_comparisons = scan_comparisons s + 1,
                scan_maxPrefix = grown (scan_maxPrefix s) i j, scan_positions = scan_positions s,
                scan_steps = scan_steps s @ [st]\<rparr>
         \<and> compare_step s True st \<and> PrefixFunction st = grown (scan_maxPrefix s) i j
         \<and> FailureValue st = 0"
  using assms by (simp add: scan_body_def Let_def compare_step_def grown_def assign_def)

lemma scan_body_full_match:
  assumes "scan_i s = int i" and "scan_j s = int j" and "i < length T" and "j \<le> i"
    and "length (scan_maxPrefix s) = length T" and "length f = length P"
    and "T ! i = P ! j" and "length P = Suc j"
  shows "\<exists>st st2 mp. scan_body T P f s =
           Inr \<lparr>scan_i = int i + 1, scan_j = f ! j, scan_comparisons = scan_comparisons s + 1,
                scan_maxPrefix = mp, scan_positions = scan_positions s @ [int i - int j],
                scan_steps = scan_steps s @ [st, st2]\<rparr>
         \<and> compare_step s True st \<and> PrefixFunction st = grown (scan_maxPrefix s) i j
         \<and> FailureValue st = 0
         \<and> TextIndex st2 = int i \<and> PatternIndex st2 = int j \<and> Match st2 \<and> Shift st2
         \<and> FailureValue st2 = f ! j \<and> Step.Comparisons st2 = scan_comparisons s + 1
         \<and> PrefixFunction st2 = mp \<and> HighlightPrefixIndex st2 = - 1
         \<and> length mp = length T
         \<and> (\<forall>t<length T. mp ! t =
               (if i - j \<le> t \<and> t \<le> i then int t - (int i - int j) + 1
                else grown (scan_maxPrefix s) i j ! t))"
proof -
  define g where "g = grown (scan_maxPrefix s) i j"
  have lg: "length g = length T"
    using assms(5) by (simp add: g_def)
  obtain mp where mp: "relabel (int (length T)) (int (length P)) (int i + 1)
        (int i + 1 - int (length P)) g = Inr mp"
      "length mp = length g"
      "\<forall>t<length g. mp ! t =
         (if int i + 1 - int (length P) \<le> int t \<and> int t < int i + 1
          then int t - (int i + 1 - int (length P)) + 1 else g ! t)"
    using relabel_correct [of g "int (length T)" "int i + 1 - int (length P)" "int i + 1"
        "int (length P)"] assms(3,4,8) lg by auto
  have entries: "\<forall>t<length T. mp ! t =
      (if i - j \<le> t \<and> t \<le> i then int t - (int i - int j) + 1 else g ! t)"
    using mp(3) lg assms(4,8) by auto
  have "\<exists>st st2. scan_body T P f s =
           Inr \<lparr>scan_i = int i + 1, scan_j = f ! j, scan_comparisons = scan_comparisons s + 1,
                scan_maxPrefix = mp, scan_positions = scan_positions s @ [int i - int j],
                scan_steps = scan_steps s @ [st, st2]\<rparr>
         \<and> compare_step s True st \<and> PrefixFunction st = g \<and> FailureValue st = 0
         \<and> TextIndex st2 = int i \<and> PatternIndex st2 = int j \<and> Match st2 \<and> Shift st2
         \<and> FailureValue st2 = f ! j \<and> Step.Comparisons st2 = scan_comparisons s + 1
         \<and> PrefixFunction st2 = mp \<and> HighlightPrefixIndex st2 = - 1"
  proof (cases "scan_maxPrefix s ! i < int j + 1")
    case True
    then have "g = (scan_maxPrefix s)[i := int j + 1]"
      by (simp add: g_def grown_def)
    then show ?thesis
      using True assms mp(1,2) lg
      by (simp add: scan_body_def Let_def compare_step_def assign_def)
  next
    case False
    then have "g = scan_maxPrefix s"
      by (simp add: g_def grown_def)
    then show ?thesis
      using False assms mp(1,2) lg
      by (simp add: scan_body_def Let_def compare_step_def assign_def)
  qed
  then obtain st st2 where "scan_body T P f s =
           Inr \<lparr>scan_i = int i + 1, scan_j = f ! j, scan_comparisons = scan_comparisons s + 1,
                scan_maxPrefix = mp, scan_positions = scan_positions s @ [int i - int j],
                scan_steps = scan_steps s @ [st, st2]\<rparr>
         \<and> compare_step s True st \<and> PrefixFunction st = g \<and> FailureValue st = 0
         \<and> TextIndex st2 = int i \<and> PatternIndex st2 = int j \<and> Match st2 \<and> Shift st2
         \<and> FailureValue st2 = f ! j \<and> Step.Comparisons st2 = scan_comparisons s + 1
         \<and> PrefixFunction st2 = mp \<and> HighlightPrefixIndex st2 = - 1"
    by blast
  then have "scan_body T P f s =
           Inr \<lparr>scan_i = int i + 1, scan_j = f ! j, scan_comparisons = scan_comparisons s + 1,
                scan_maxPrefix = mp, scan_positions = scan_positions s @ [int i - int j],
                scan_steps = scan_steps s @ [st, st2]\<rparr>
         \<and> compare_step s True st \<and> PrefixFunction st = g \<and> FailureValue st = 0
         \<and> TextIndex st2 = int i \<and> PatternIndex st2 = int j \<and> Match st2 \<and> Shift st2
         \<and> FailureValue st2 = f ! j \<and> Step.Comparisons st2 = scan_comparisons s + 1
         \<and> PrefixFunction st2 = mp \<and> HighlightPrefixIndex st2 = - 1
         \<and> length mp = length T
         \<and> (\<forall>t<length T. mp ! t =
               (if i - j \<le> t \<and> t \<le> i then int t - (int i - int j) + 1 else g ! t))"
    using entries mp(2) lg by simp
  then show ?thesis
    unfolding g_def by (intro exI)
qed

lemma scan_body_cases [consumes 7, case_names match full shift zero]:
  assumes "scan_i s = int i" and "scan_j s = int j" and "i < length T" and "j < length P"
    and "j \<le> i" and "length (scan_maxPrefix s) = length T" and "length f = length P"
  obtains
    (match) st where "T ! i = P ! j" and "Suc j < length P"
      and "scan_body T P f s =
           Inr \<lparr>scan_i = int i + 1, scan_j = int j + 1, scan_comparisons = scan_comparisons s + 1,
                scan_maxPrefix = grown (scan_maxPrefix s) i j, scan_positions = scan_positions s,
                scan_steps = scan_steps s @ [st]\<rparr>"
      and "compare_step s True st" and "PrefixFunction st = grown (scan_maxPrefix s) i j"
      and "FailureValue st = 0"
  | (full) st st2 mp where "T ! i = P ! j" and "Suc j = length P"
      and "scan_body T P f s =
           Inr \<lparr>scan_i = int i + 1, scan_j = f ! j, scan_comparisons = scan_comparisons s + 1,
                scan_maxPrefix = mp, scan_positions = scan_positions s @ [int i - int j],
                scan_steps = scan_steps s @ [st, st2]\<rparr>"
      and "compare_step s True st" and "PrefixFunction st = grown (scan_maxPrefix s) i j"
      and "FailureValue st = 0"
      and "TextIndex st2 = int i" and "PatternIndex st2 = int j" and "Match st2" and "Shift st2"
      and "FailureValue st2 = f ! j" and "Step.Comparisons st2 = scan_comparisons s + 1"
      and "PrefixFunction st2 = mp" and "HighlightPrefixIndex st2 = - 1"
      and "length mp = length T"
      and "\<forall>t<length T. mp ! t =
             (if i - j \<le> t \<and> t \<le> i then int t - (int i - int j) + 1
              else grown (scan_maxPrefix s) i j ! t)"
  | (shift) st st2 where "T ! i \<noteq> P ! j" and "0 < j"
      and "scan_body T P f s =
           Inr \<lparr>scan_i = int i, scan_j = f ! (j - 1), scan_comparisons = scan_comparisons s + 1,
                scan_maxPrefix = scan_maxPrefix s, scan_positions = scan_positions s,
                scan_steps = scan_steps s @ [st, st2]\<rparr>"
      and "compare_step s False st" and "PrefixFunction st = scan_maxPrefix s"
      and "FailureValue st = f ! (j - 1)"
      and "TextIndex st2 = int i" and "PatternIndex st2 = f ! (j - 1)" and "\<not> Match st2"
      and "Shift st2" and "FailureValue st2 = 0"
      and "Step.Comparisons st2 = scan_comparisons s + 1"
      and "PrefixFunction st2 = scan_maxPrefix s" and "HighlightPrefixIndex st2 = int i"
  | (zero) st where "T ! i \<noteq> P ! 0" and "j = 0"
      and "scan_body T P f s =
           Inr \<lparr>scan_i = int i + 1, scan_j = 0, scan_comparisons = scan_comparisons s + 1,
                scan_maxPrefix = scan_maxPrefix s, scan_positions = scan_positions s,
                scan_steps = scan_steps s @ [st]\<rparr>"
      and "compare_step s False st" and "PrefixFunction st = scan_maxPrefix s"
      and "FailureValue st = 0"
proof (cases "T ! i = P ! j")
  case True
  show ?thesis
  proof (cases "Suc j = length P")
    case eq: True
    then have "length P = Suc j" by simp
    from scan_body_full_match [OF assms(1,2,3,5,6,7) True this]
    show ?thesis using full [OF True eq] by blast
  next
    case False
    then have "Suc j < length P" using assms(4) by simp
    with scan_body_match [OF assms(1,2,3,4,6) True False, of f]
    show ?thesis using match [OF True] by blast
  qed
next
  case False
  show ?thesis
  proof (cases "0 < j")
    case True
    from scan_body_mismatch_shift [OF assms(1,2,3,4,6,7) False True]
    show ?thesis using shift [OF False True] by blast
  next
    case j0: False
    then have "j = 0" by simp
    have pne: "P \<noteq> []" using assms(4) by auto
    have sj: "scan_j s = 0" using assms(2) \<open>j = 0\<close> by simp
    have ne: "T ! i \<noteq> P ! 0" using False \<open>j = 0\<close> by simp
    from scan_body_mismatch_zero [OF assms(1) sj assms(3) pne assms(6) ne, of f]
    show ?thesis using zero [OF ne \<open>j = 0\<close>] by blast
  qed
qed

section \<open>The invariant of the scan\<close>

lemma filter_upt_none:
  assumes "a \<le> b" and "\<And>p. a \<le> p \<Longrightarrow> p < b \<Longrightarrow> \<not> Q p"
  shows "filter Q [0..<b] = filter Q [0..<a]"
proof -
  have "[0..<b] = [0..<a] @ [a..<b]"
    using assms(1) upt_add_eq_append [of 0 a "b - a"] by simp
  moreover have "filter Q [a..<b] = []"
    using assms(2) by (auto simp: filter_empty_conv)
  ultimately show ?thesis by simp
qed

lemma filter_upt_one:
  assumes "a < b" and "Q a" and "\<And>p. a < p \<Longrightarrow> p < b \<Longrightarrow> \<not> Q p"
  shows "filter Q [0..<b] = filter Q [0..<a] @ [a]"
proof -
  have "[0..<b] = [0..<a] @ [a..<b]"
    using assms(1) upt_add_eq_append [of 0 a "b - a"] by simp
  moreover have "[a..<b] = a # [Suc a..<b]"
    using assms(1) by (simp add: upt_conv_Cons)
  moreover have "filter Q [Suc a..<b] = []"
    using assms(3) by (auto simp: filter_empty_conv)
  ultimately show ?thesis using assms(2) by simp
qed

lemma no_occurrence_between:
  assumes q: "occurs P T q j" and b: "lpb P j b" and qp: "q < p" and pb: "p + b < q + j"
  shows "\<not> occurs P T p (length P)"
proof
  assume full: "occurs P T p (length P)"
  define k where "k = q + j - p"
  have "j \<le> length P" using q by (simp add: occurs_def)
  then have "k \<le> length P" using qp by (simp add: k_def)
  then have "occurs P T p k" using occurs_mono [OF full] by simp
  moreover have "p + k = q + j" using pb by (simp add: k_def)
  ultimately have "pborder P j k" using occurs_overlap [OF q _ _ qp] by simp
  then have "k \<le> b" using b by (simp add: lpb_def)
  then show False using pb by (simp add: k_def)
qed

lemma no_occurrence_mismatch:
  assumes "j < length P" and "T ! (q + j) \<noteq> P ! j"
  shows "\<not> occurs P T q (length P)"
  using assms by (auto simp: occurs_def)

lemma kmp_inv_step:
  assumes tab: "table_ok P f (length P)" and len: "length f = length P"
    and inv: "kmp_inv T P s" and lt: "scan_i s < int (length T)"
  shows "\<exists>s'. scan_body T P f s = Inr s' \<and> kmp_inv T P s'
           \<and> (scan_i s' = scan_i s + 1 \<and> scan_j s' \<le> scan_j s + 1
                \<or> scan_i s' = scan_i s \<and> scan_j s' < scan_j s)"
proof -
  let ?Q = "\<lambda>p. occurs P T p (length P)"
  from inv obtain i j where ij: "scan_i s = int i" "scan_j s = int j"
      and jm: "j < length P" and ji: "j \<le> i"
      and mp: "length (scan_maxPrefix s) = length T"
      and occ: "occurs P T (i - j) j"
      and pos: "scan_positions s = map int (filter ?Q [0..<i - j])"
    unfolding kmp_inv_def by blast
  have i: "i < length T" using lt ij by simp
  have qj: "i - j + j = i" using ji by simp
  from ij i jm ji mp len show ?thesis
  proof (cases rule: scan_body_cases)
    case (match st)
    have "occurs P T (i - j) (Suc j)"
      using occurs_Suc [OF occ jm] i match(1) qj by simp
    then have "kmp_inv T P \<lparr>scan_i = int i + 1, scan_j = int j + 1,
        scan_comparisons = scan_comparisons s + 1,
        scan_maxPrefix = grown (scan_maxPrefix s) i j, scan_positions = scan_positions s,
        scan_steps = scan_steps s @ [st]\<rparr>"
      unfolding kmp_inv_def using match(2) ji i mp pos
      by (intro exI [of _ "Suc i"] exI [of _ "Suc j"]) simp
    then show ?thesis using match(3) ij i by simp
  next
    case (full st st2 mp')
    define b where "b = nat (f ! j)"
    have fj: "f ! j = int b"
      using table_ok_nonneg [OF tab jm] by (simp add: b_def)
    have b: "lpb P (length P) b"
      using tab jm full(2) unfolding table_ok_def b_def by metis
    have bj: "b \<le> j" using lpb_less [OF b] full(2) by simp
    have occ_m: "occurs P T (i - j) (length P)"
      using occurs_Suc [OF occ jm] i full(1,2) qj by simp
    have "occurs P T (i - j + length P - b) b"
      using occurs_shift [OF occ_m] b by (simp add: lpb_def)
    moreover have "i - j + length P - b = Suc i - b"
      using full(2) ji by simp
    ultimately have occ': "occurs P T (Suc i - b) b" by simp
    have "filter ?Q [0..<Suc i - b] = filter ?Q [0..<i - j] @ [i - j]"
    proof (rule filter_upt_one)
      show "i - j < Suc i - b" using bj ji by simp
      show "occurs P T (i - j) (length P)" by (rule occ_m)
      show "\<not> occurs P T p (length P)" if "i - j < p" "p < Suc i - b" for p
        using no_occurrence_between [OF occ_m b that(1)] that(2) full(2) ji by simp
    qed
    then have "scan_positions s @ [int i - int j] = map int (filter ?Q [0..<Suc i - b])"
      using pos ji by (simp add: of_nat_diff)
    then have "kmp_inv T P \<lparr>scan_i = int i + 1, scan_j = f ! j,
        scan_comparisons = scan_comparisons s + 1,
        scan_maxPrefix = mp', scan_positions = scan_positions s @ [int i - int j],
        scan_steps = scan_steps s @ [st, st2]\<rparr>"
      unfolding kmp_inv_def using occ' fj bj ji jm i full(15)
      by (intro exI [of _ "Suc i"] exI [of _ b]) simp
    then show ?thesis using full(3) ij i fj bj by simp
  next
    case (shift st st2)
    define b where "b = nat (f ! (j - 1))"
    have fj: "f ! (j - 1) = int b"
      using table_ok_nonneg [OF tab, of "j - 1"] jm by (simp add: b_def)
    have b: "lpb P j b"
      unfolding b_def using table_ok_lpb [OF tab shift(2)] jm by simp
    have bj: "b < j" using b by (rule lpb_less)
    have "occurs P T (i - j + j - b) b"
      using occurs_shift [OF occ] b by (simp add: lpb_def)
    then have occ': "occurs P T (i - b) b" using qj by simp
    have "filter ?Q [0..<i - b] = filter ?Q [0..<i - j]"
    proof (rule filter_upt_none)
      show "i - j \<le> i - b" using bj by simp
      show "\<not> occurs P T p (length P)" if "i - j \<le> p" "p < i - b" for p
      proof (cases "p = i - j")
        case True
        then show ?thesis
          using no_occurrence_mismatch [OF jm, of T "i - j"] shift(1) qj by simp
      next
        case False
        then have "i - j < p" using that(1) by simp
        then show ?thesis
          using no_occurrence_between [OF occ b] that(2) ji by simp
      qed
    qed
    then have "kmp_inv T P \<lparr>scan_i = int i, scan_j = f ! (j - 1),
        scan_comparisons = scan_comparisons s + 1,
        scan_maxPrefix = scan_maxPrefix s, scan_positions = scan_positions s,
        scan_steps = scan_steps s @ [st, st2]\<rparr>"
      unfolding kmp_inv_def using occ' fj bj ji jm i mp pos
      by (intro exI [of _ i] exI [of _ b]) simp
    then show ?thesis using shift(3) ij i fj bj by simp
  next
    case (zero st)
    have "filter ?Q [0..<Suc i] = filter ?Q [0..<i]"
    proof (rule filter_upt_none)
      show "i \<le> Suc i" by simp
      show "\<not> occurs P T p (length P)" if "i \<le> p" "p < Suc i" for p
      proof -
        have "p = i" using that by simp
        then show ?thesis
          using no_occurrence_mismatch [OF jm, of T p] zero(1,2) by simp
      qed
    qed
    then have "kmp_inv T P \<lparr>scan_i = int i + 1, scan_j = 0,
        scan_comparisons = scan_comparisons s + 1,
        scan_maxPrefix = scan_maxPrefix s, scan_positions = scan_positions s,
        scan_steps = scan_steps s @ [st]\<rparr>"
      unfolding kmp_inv_def using zero(2) jm i mp pos
      by (intro exI [of _ "Suc i"] exI [of _ 0]) (simp add: occurs_zero)
    then show ?thesis using zero(3) ij i zero(2) by simp
  qed
qed

lemma table_ok_entry:
  assumes tab: "table_ok P f (length P)" and j: "0 < j" "j \<le> int (length P)"
  shows "0 \<le> f ! nat (j - 1) \<and> f ! nat (j - 1) < j"
proof -
  have lt: "nat (j - 1) < length P" using j by auto
  have "lpb P (Suc (nat (j - 1))) (nat (f ! nat (j - 1)))" and nonneg: "0 \<le> f ! nat (j - 1)"
    using tab lt by (simp_all add: table_ok_def)
  then have "nat (f ! nat (j - 1)) < Suc (nat (j - 1))"
    using lpb_less by blast
  then show ?thesis using nonneg j by auto
qed

lemma kmp_inv_init: "P \<noteq> [] \<Longrightarrow> kmp_inv T P (scan_init T)"
  unfolding kmp_inv_def scan_init_def
  by (intro exI [of _ 0]) (simp add: occurs_zero)

lemma trace_inv_init: "trace_inv T P (scan_init T)"
  by (simp add: trace_inv_def scan_init_def)

lemma trace_inv_step:
  assumes tab: "table_ok P f (length P)" and len: "length f = length P"
    and inv: "kmp_inv T P s" and tr: "trace_inv T P s" and lt: "scan_i s < int (length T)"
    and body: "scan_body T P f s = Inr s'"
  shows "trace_inv T P s'"
proof -
  from inv obtain i j where ij: "scan_i s = int i" "scan_j s = int j"
      and jm: "j < length P" and ji: "j \<le> i"
      and mp: "length (scan_maxPrefix s) = length T"
    unfolding kmp_inv_def by blast
  have i: "i < length T" using lt ij by simp
  from ij i jm ji mp len show ?thesis
  proof (cases rule: scan_body_cases)
    case (match st)
    then show ?thesis
      using body tr ij i jm
      by (auto simp: trace_inv_def compare_step_def sorted_append)
  next
    case (full st st2 mp')
    have "nat (int (length P) - 1) = j"
      using full(2) by auto
    moreover have "P \<noteq> []"
      using jm by auto
    ultimately have "f ! j < int (length P)"
      using table_ok_entry [OF tab, of "int (length P)"] by auto
    with full show ?thesis
      using body tr ij i jm
      by (auto simp: trace_inv_def compare_step_def sorted_append)
  next
    case (shift st st2)
    have "0 \<le> f ! (j - 1)"
      using table_ok_nonneg [OF tab, of "j - 1"] jm by simp
    moreover have "nat (f ! (j - 1)) < j"
      using lpb_less [OF table_ok_lpb [OF tab shift(2)]] jm by simp
    ultimately have "0 \<le> f ! (j - 1) \<and> f ! (j - 1) < int (length P) \<and> f ! (j - 1) < int j"
      using jm by linarith
    with shift show ?thesis
      using body tr ij i jm
      by (auto simp: trace_inv_def compare_step_def sorted_append)
  next
    case (zero st)
    then show ?thesis
      using body tr ij i jm
      by (auto simp: trace_inv_def compare_step_def sorted_append)
  qed
qed

lemma reachable_inv:
  assumes tab: "table_ok P f (length P)" and len: "length f = length P" and ne: "P \<noteq> []"
    and r: "reachable T P f s"
  shows "kmp_inv T P s \<and> trace_inv T P s"
  using r
proof (induction rule: reachable.induct)
  case start
  show ?case using kmp_inv_init [OF ne] trace_inv_init by simp
next
  case (iterate s s')
  then have "kmp_inv T P s'"
    using kmp_inv_step [OF tab len, of T s] by auto
  moreover have "trace_inv T P s'"
    using trace_inv_step [OF tab len _ _ iterate(2,3)] iterate.IH by simp
  ultimately show ?case by simp
qed

lemma reachable_empty_text:
  assumes "reachable T P f s" and "T = []"
  shows "s = scan_init T"
  using assms by (induction rule: reachable.induct) (auto simp: scan_init_def)

section \<open>The whole run\<close>

lemma scan_loop_reaches:
  assumes tab: "table_ok P f (length P)" and len: "length f = length P" and ne: "P \<noteq> []"
    and r: "reachable T P f s"
  shows "\<exists>s'. scan_loop T P f s = Some (Inr s') \<and> reachable T P f s'
           \<and> scan_i s' = int (length T)"
  using r
proof (induction "2 * nat (int (length T) - scan_i s) + nat (scan_j s)" arbitrary: s
    rule: less_induct)
  case less
  have inv: "kmp_inv T P s"
    using reachable_inv [OF tab len ne less.prems] by simp
  show ?case
  proof (cases "scan_i s < int (length T)")
    case True
    obtain s1 where s1: "scan_body T P f s = Inr s1" "kmp_inv T P s1"
        "scan_i s1 = scan_i s + 1 \<and> scan_j s1 \<le> scan_j s + 1
           \<or> scan_i s1 = scan_i s \<and> scan_j s1 < scan_j s"
      using kmp_inv_step [OF tab len inv True] by blast
    have "0 \<le> scan_j s1" "0 \<le> scan_j s"
      using s1(2) inv unfolding kmp_inv_def by auto
    then have less: "2 * nat (int (length T) - scan_i s1) + nat (scan_j s1)
           < 2 * nat (int (length T) - scan_i s) + nat (scan_j s)"
      using s1(3) True by auto
    have "reachable T P f s1"
      using reachable.iterate [OF less.prems True s1(1)] .
    then have "\<exists>s'. scan_loop T P f s1 = Some (Inr s') \<and> reachable T P f s'
        \<and> scan_i s' = int (length T)"
      using less.hyps [OF less] by simp
    moreover have "scan_loop T P f s = scan_loop T P f s1"
      using True s1(1) by (subst scan_loop.simps) simp
    ultimately show ?thesis by simp
  next
    case False
    then have "scan_i s = int (length T)"
      using inv unfolding kmp_inv_def by auto
    moreover have "scan_loop T P f s = Some (Inr s)"
      using False by (subst scan_loop.simps) simp
    ultimately show ?thesis using less.prems by simp
  qed
qed

lemma occurs_take_drop:
  assumes "P \<noteq> []"
  shows "occurs P T p (length P) \<longleftrightarrow> take (length P) (drop p T) = P"
proof (cases "p + length P \<le> length T")
  case True
  then show ?thesis
    by (auto simp: occurs_def list_eq_iff_nth_eq min_def)
next
  case False
  moreover have "0 < length P"
    using assms by simp
  ultimately have "min (length P) (length T - p) \<noteq> length P"
    by arith
  then have "length (take (length P) (drop p T)) \<noteq> length P"
    by simp
  then have "take (length P) (drop p T) \<noteq> P"
    by metis
  then show ?thesis using False by (simp add: occurs_def)
qed

lemma buildFailureFunction_Inr:
  assumes "buildFailureFunction P = Some (Inr f)"
  shows "P \<noteq> [] \<and> length f = length P \<and> table_ok P f (length P)"
proof -
  have ne: "P \<noteq> []"
    using assms by (auto simp: buildFailureFunction_def make_slice_def assign_def)
  then show ?thesis
    using buildFailureFunction_correct [OF ne] assms by auto
qed

lemma searchKMP_run:
  assumes "T \<noteq> []" and "P \<noteq> []"
  shows "\<exists>f s. buildFailureFunction P = Some (Inr f) \<and> reachable T P f s
           \<and> scan_i s = int (length T)
           \<and> searchKMP T P =
               Some (Inr \<lparr>FailureFunction = f, Steps = scan_steps s,
                          Found = (length (scan_positions s) > 0),
                          Positions = scan_positions s,
                          KMPResult.Comparisons = scan_comparisons s, Error = []\<rparr>)"
proof -
  obtain f where f: "buildFailureFunction P = Some (Inr f)" "length f = length P"
      "table_ok P f (length P)"
    using buildFailureFunction_correct [OF assms(2)] by blast
  obtain s where s: "scan_loop T P f (scan_init T) = Some (Inr s)" "reachable T P f s"
      "scan_i s = int (length T)"
    using scan_loop_reaches [OF f(3,2) assms(2) reachable.start] by blast
  show ?thesis
    using assms f(1) s by (intro exI [of _ f] exI [of _ s]) (simp add: searchKMP_def)
qed

lemma final_positions:
  assumes inv: "kmp_inv T P s" and fin: "scan_i s = int (length T)" and ne: "P \<noteq> []"
  shows "scan_positions s = map int (brute_force T P)"
proof -
  let ?Q = "\<lambda>p. occurs P T p (length P)"
  from inv fin obtain j where jm: "j < length P" and ji: "j \<le> length T"
      and pos: "scan_positions s = map int (filter ?Q [0..<length T - j])"
    unfolding kmp_inv_def by auto
  have "filter ?Q [0..<length T] = filter ?Q [0..<length T - j]"
  proof (rule filter_upt_none)
    show "length T - j \<le> length T" by simp
    show "\<not> occurs P T p (length P)" if "length T - j \<le> p" "p < length T" for p
      using that jm by (auto simp: occurs_def)
  qed
  then show ?thesis
    using pos by (simp add: brute_force_def occurs_take_drop [OF ne])
qed

text \<open>
  The counter of comparisons never exceeds twice the length of the text, so that it stays
  in the range of a Go \<^verbatim>\<open>int\<close> like the cursors.
\<close>

lemma comparisons_at_most_twice_text:
  assumes "T \<noteq> []" and "P \<noteq> []"
  shows "\<exists>r. searchKMP T P = Some (Inr r) \<and> 0 \<le> KMPResult.Comparisons r
           \<and> KMPResult.Comparisons r \<le> 2 * int (length T)"
proof -
  obtain f s where run: "buildFailureFunction P = Some (Inr f)"
      "reachable T P f s" "scan_i s = int (length T)"
      "searchKMP T P =
         Some (Inr \<lparr>FailureFunction = f, Steps = scan_steps s,
                    Found = (length (scan_positions s) > 0),
                    Positions = scan_positions s,
                    KMPResult.Comparisons = scan_comparisons s, Error = []\<rparr>)"
    using searchKMP_run [OF assms] by blast
  have f: "length f = length P" "table_ok P f (length P)"
    using buildFailureFunction_Inr [OF run(1)] by simp_all
  have inv: "kmp_inv T P s" "trace_inv T P s"
    using reachable_inv [OF f(2,1) assms(2) run(2)] by simp_all
  have "0 \<le> scan_j s"
    using inv(1) unfolding kmp_inv_def by auto
  then show ?thesis
    using inv(2) run(3,4) by (auto simp: trace_inv_def)
qed

section \<open>Claims\<close>

text \<open>
  C1. For every non-empty text and non-empty pattern, \<open>searchKMP\<close> returns a result whose
  \<open>Positions\<close> are those of the brute-force scan, in the same order: a position \<open>p\<close> is
  reported if and only if the pattern stands in the text from \<open>p\<close> on. In particular every
  reported position is an exact occurrence.
\<close>

theorem searchKMP_positions:
  assumes "text \<noteq> []" and "pattern \<noteq> []"
  shows "\<exists>r. searchKMP text pattern = Some (Inr r)
           \<and> Positions r = map int (brute_force text pattern)
           \<and> (\<forall>p. p \<in> set (Positions r) \<longleftrightarrow>
                 0 \<le> p \<and> take (length pattern) (drop (nat p) text) = pattern)"
proof -
  obtain f s where run: "buildFailureFunction pattern = Some (Inr f)"
      "reachable text pattern f s" "scan_i s = int (length text)"
      "searchKMP text pattern =
         Some (Inr \<lparr>FailureFunction = f, Steps = scan_steps s,
                    Found = (length (scan_positions s) > 0),
                    Positions = scan_positions s,
                    KMPResult.Comparisons = scan_comparisons s, Error = []\<rparr>)"
    using searchKMP_run [OF assms] by blast
  have f: "length f = length pattern" "table_ok pattern f (length pattern)"
    using buildFailureFunction_Inr [OF run(1)] by simp_all
  have "kmp_inv text pattern s"
    using reachable_inv [OF f(2,1) assms(2) run(2)] by simp
  then have pos: "scan_positions s = map int (brute_force text pattern)"
    using final_positions run(3) assms(2) by simp
  have "p \<in> set (map int (brute_force text pattern)) \<longleftrightarrow>
      0 \<le> p \<and> take (length pattern) (drop (nat p) text) = pattern" for p
  proof
    assume "p \<in> set (map int (brute_force text pattern))"
    then show "0 \<le> p \<and> take (length pattern) (drop (nat p) text) = pattern"
      by (auto simp: brute_force_def)
  next
    assume p: "0 \<le> p \<and> take (length pattern) (drop (nat p) text) = pattern"
    then have "nat p < length text"
      using assms(2) by (cases "nat p < length text") auto
    then have "nat p \<in> set (brute_force text pattern)"
      using p by (simp add: brute_force_def)
    then have "int (nat p) \<in> int ` set (brute_force text pattern)"
      by (rule imageI)
    then show "p \<in> set (map int (brute_force text pattern))"
      using p by simp
  qed
  then show ?thesis using run(4) pos by simp
qed

theorem searchKMP_positions_witness:
  "''ABABDABACDABABCABAB'' \<noteq> [] \<and> ''ABABCABAB'' \<noteq> [] \<and>
   (\<exists>r. searchKMP ''ABABDABACDABABCABAB'' ''ABABCABAB'' = Some (Inr r)
      \<and> Positions r = map int (brute_force ''ABABDABACDABABCABAB'' ''ABABCABAB'')
      \<and> Positions r = [10]
      \<and> (\<forall>p. p \<in> set (Positions r) \<longleftrightarrow>
            0 \<le> p \<and> take (length ''ABABCABAB'') (drop (nat p) ''ABABDABACDABABCABAB'')
                       = ''ABABCABAB''))"
proof -
  have "brute_force ''ABABDABACDABABCABAB'' ''ABABCABAB'' = [10]"
    by code_simp
  then show ?thesis
    using searchKMP_positions [of "''ABABDABACDABABCABAB''" "''ABABCABAB''"] by auto
qed

text \<open>
  C2. For every non-empty pattern, \<open>buildFailureFunction\<close> returns (without panic) a table as
  long as the pattern, whose entry 0 is 0 and whose entry \<open>i\<close> lies between 0 and \<open>i\<close> and is
  the length of the longest proper prefix of the pattern that is also a suffix of the
  pattern prefix ending at position \<open>i\<close>.
\<close>

theorem buildFailureFunction_table:
  assumes "pattern \<noteq> []"
  shows "\<exists>failure. buildFailureFunction pattern = Some (Inr failure)
           \<and> length failure = length pattern
           \<and> failure ! 0 = 0
           \<and> (\<forall>i<length pattern. 0 \<le> failure ! i \<and> failure ! i \<le> int i
                 \<and> failure ! i = int (longest_border (take (Suc i) pattern)))"
proof -
  obtain f where f: "buildFailureFunction pattern = Some (Inr f)" "length f = length pattern"
      "table_ok pattern f (length pattern)"
    using buildFailureFunction_correct [OF assms] by blast
  have entry: "0 \<le> f ! i \<and> f ! i \<le> int i \<and> f ! i = int (longest_border (take (Suc i) pattern))"
    if i: "i < length pattern" for i
  proof -
    have nonneg: "0 \<le> f ! i" and b: "lpb pattern (Suc i) (nat (f ! i))"
      using f(3) i by (simp_all add: table_ok_def)
    have "nat (f ! i) < Suc i" using b by (rule lpb_less)
    moreover have "longest_border (take (Suc i) pattern) = nat (f ! i)"
      using longest_border_take [OF _ b] i by simp
    ultimately show ?thesis using nonneg by simp
  qed
  have "f ! 0 = 0" using entry [of 0] assms by simp
  with f entry show ?thesis by blast
qed

theorem buildFailureFunction_table_witness:
  "''ABABCABAB'' \<noteq> [] \<and>
   buildFailureFunction ''ABABCABAB'' = Some (Inr [0, 0, 1, 2, 0, 1, 2, 3, 4]) \<and>
   map (\<lambda>i. int (longest_border (take (Suc i) ''ABABCABAB''))) [0..<9]
     = [0, 0, 1, 2, 0, 1, 2, 3, 4] \<and>
   (\<exists>failure. buildFailureFunction ''ABABCABAB'' = Some (Inr failure)
      \<and> length failure = length ''ABABCABAB''
      \<and> failure ! 0 = 0
      \<and> (\<forall>i<length ''ABABCABAB''. 0 \<le> failure ! i \<and> failure ! i \<le> int i
            \<and> failure ! i = int (longest_border (take (Suc i) ''ABABCABAB''))))"
proof -
  have "buildFailureFunction ''ABABCABAB'' = Some (Inr [0, 0, 1, 2, 0, 1, 2, 3, 4])"
    by code_simp
  moreover have "map (\<lambda>i. int (longest_border (take (Suc i) ''ABABCABAB''))) [0..<9]
      = [0, 0, 1, 2, 0, 1, 2, 3, 4]"
    by code_simp
  moreover have "''ABABCABAB'' \<noteq> []"
    by simp
  moreover note buildFailureFunction_table [OF this]
  ultimately show ?thesis
    by (intro conjI)
qed

text \<open>
  C3. An iteration of the scan, started in a state \<open>s\<close> the loop can be in, in which the
  comparison matches and the pattern cursor reaches the pattern length \<open>m\<close> after advancing.
  With \<open>i\<close> the text cursor after advancing (\<open>scan_i s + 1\<close>): the position \<open>i - m\<close> is appended
  to the positions; every snapshot entry from \<open>i - m\<close> to \<open>i - 1\<close> becomes its 1-based offset
  in the span, whatever it was before, and the other entries stay those of the first step's
  snapshot; after the step of the comparison a second step is emitted with \<open>Shift\<close> true,
  \<open>HighlightPrefixIndex\<close> -1, \<open>FailureValue\<close> equal to \<open>failure[m - 1]\<close> and the relabelled
  snapshot; and the pattern cursor becomes \<open>failure[m - 1]\<close>. The witness is the third
  iteration on the text \<^verbatim>\<open>aaa\<close> with the pattern \<^verbatim>\<open>aa\<close>, where the entry at position 1 is
  lowered from 2 to 1.
\<close>

theorem full_match_iteration:
  assumes "buildFailureFunction pattern = Some (Inr failure)"
    and "reachable text pattern failure s"
    and "scan_i s < int (length text)"
    and "text ! nat (scan_i s) = pattern ! nat (scan_j s)"
    and "scan_j s + 1 = int (length pattern)"
  shows "\<exists>st st2 mp.
           scan_body text pattern failure s =
             Inr \<lparr>scan_i = scan_i s + 1,
                  scan_j = failure ! nat (int (length pattern) - 1),
                  scan_comparisons = scan_comparisons s + 1,
                  scan_maxPrefix = mp,
                  scan_positions = scan_positions s @ [scan_i s + 1 - int (length pattern)],
                  scan_steps = scan_steps s @ [st, st2]\<rparr>
         \<and> TextIndex st = scan_i s \<and> PatternIndex st = scan_j s \<and> Match st \<and> \<not> Shift st
         \<and> HighlightPrefixIndex st = scan_i s
         \<and> Step.Comparisons st = scan_comparisons s + 1
         \<and> TextIndex st2 = scan_i s \<and> PatternIndex st2 = int (length pattern) - 1
         \<and> Match st2 \<and> Shift st2 \<and> HighlightPrefixIndex st2 = - 1
         \<and> FailureValue st2 = failure ! nat (int (length pattern) - 1)
         \<and> Step.Comparisons st2 = scan_comparisons s + 1
         \<and> PrefixFunction st2 = mp \<and> length mp = length text
         \<and> 0 \<le> scan_i s + 1 - int (length pattern)
         \<and> (\<forall>k. scan_i s + 1 - int (length pattern) \<le> k \<and> k \<le> scan_i s + 1 - 1 \<longrightarrow>
               mp ! nat k = k - (scan_i s + 1 - int (length pattern)) + 1)
         \<and> (\<forall>k. 0 \<le> k \<and> k < scan_i s + 1 - int (length pattern) \<or>
                 scan_i s + 1 \<le> k \<and> k < int (length text) \<longrightarrow>
               mp ! nat k = PrefixFunction st ! nat k)"
proof -
  have f: "pattern \<noteq> []" "length failure = length pattern"
      "table_ok pattern failure (length pattern)"
    using buildFailureFunction_Inr [OF assms(1)] by simp_all
  have "kmp_inv text pattern s"
    using reachable_inv [OF f(3,2,1) assms(2)] by simp
  then obtain i j where ij: "scan_i s = int i" "scan_j s = int j"
      and jm: "j < length pattern" and ji: "j \<le> i"
      and mp: "length (scan_maxPrefix s) = length text"
    unfolding kmp_inv_def by blast
  have i: "i < length text" using assms(3) ij by simp
  have eq: "text ! i = pattern ! j" using assms(4) ij by simp
  have m: "length pattern = Suc j" using assms(5) ij by simp
  obtain st st2 mp' where body: "scan_body text pattern failure s =
        Inr \<lparr>scan_i = int i + 1, scan_j = failure ! j,
             scan_comparisons = scan_comparisons s + 1,
             scan_maxPrefix = mp', scan_positions = scan_positions s @ [int i - int j],
             scan_steps = scan_steps s @ [st, st2]\<rparr>"
      and st: "compare_step s True st" "PrefixFunction st = grown (scan_maxPrefix s) i j"
      and st2: "TextIndex st2 = int i" "PatternIndex st2 = int j" "Match st2" "Shift st2"
        "FailureValue st2 = failure ! j" "Step.Comparisons st2 = scan_comparisons s + 1"
        "PrefixFunction st2 = mp'" "HighlightPrefixIndex st2 = - 1"
      and mp': "length mp' = length text"
        "\<forall>t<length text. mp' ! t =
           (if i - j \<le> t \<and> t \<le> i then int t - (int i - int j) + 1
            else grown (scan_maxPrefix s) i j ! t)"
    using scan_body_full_match [OF ij i ji mp f(2) eq m] by blast
  have span: "mp' ! nat k = k - (int i + 1 - int (Suc j)) + 1"
    if "int i + 1 - int (Suc j) \<le> k \<and> k \<le> int i + 1 - 1" for k
  proof -
    have "nat k < length text" "i - j \<le> nat k" "nat k \<le> i" "int (nat k) = k"
      using that i ji by auto
    then show ?thesis using mp'(2) ji by (simp add: of_nat_diff)
  qed
  have rest: "mp' ! nat k = PrefixFunction st ! nat k"
    if "0 \<le> k \<and> k < int i + 1 - int (Suc j) \<or> int i + 1 \<le> k \<and> k < int (length text)" for k
  proof -
    have a: "nat k < length text" and b: "\<not> (i - j \<le> nat k \<and> nat k \<le> i)"
      using that i ji by auto
    have "mp' ! nat k = grown (scan_maxPrefix s) i j ! nat k"
      using mp'(2) [rule_format, OF a] b by (simp only: if_not_P if_False)
    then show ?thesis using st(2) by simp
  qed
  show ?thesis
    using body st(1) st2 mp'(1) span rest ij m ji
    by (intro exI [of _ st] exI [of _ st2] exI [of _ mp'])
      (simp add: compare_step_def)
qed

theorem full_match_iteration_witness:
  "\<exists>s s'. buildFailureFunction ''aa'' = Some (Inr [0, 1])
      \<and> reachable ''aaa'' ''aa'' [0, 1] s
      \<and> scan_i s < int (length ''aaa'')
      \<and> ''aaa'' ! nat (scan_i s) = ''aa'' ! nat (scan_j s)
      \<and> scan_j s + 1 = int (length ''aa'')
      \<and> scan_body ''aaa'' ''aa'' [0, 1] s = Inr s'
      \<and> scan_i s = 2 \<and> scan_j s = 1 \<and> scan_i s' = 3 \<and> scan_j s' = 1
      \<and> scan_positions s' = scan_positions s @ [1]
      \<and> scan_maxPrefix s ! 1 = 2 \<and> scan_maxPrefix s' ! 1 = 1 \<and> scan_maxPrefix s' ! 2 = 2
      \<and> map Shift (drop (length (scan_steps s)) (scan_steps s')) = [False, True]
      \<and> map HighlightPrefixIndex (drop (length (scan_steps s)) (scan_steps s')) = [2, - 1]"
proof -
  have bf: "buildFailureFunction ''aa'' = Some (Inr [0, 1])"
    by code_simp
  obtain st0 where first: "scan_body ''aaa'' ''aa'' [0, 1] (scan_init ''aaa'') =
      Inr \<lparr>scan_i = int 0 + 1, scan_j = int 0 + 1,
           scan_comparisons = scan_comparisons (scan_init ''aaa'') + 1,
           scan_maxPrefix = grown (scan_maxPrefix (scan_init ''aaa'')) 0 0,
           scan_positions = scan_positions (scan_init ''aaa''),
           scan_steps = scan_steps (scan_init ''aaa'') @ [st0]\<rparr>"
    using scan_body_match [of "scan_init ''aaa''" 0 0 "''aaa''" "''aa''" "[0, 1]"]
    by (auto simp: scan_init_def)
  define s1 where "s1 = \<lparr>scan_i = int 0 + 1, scan_j = int 0 + 1,
           scan_comparisons = scan_comparisons (scan_init ''aaa'') + 1,
           scan_maxPrefix = grown (scan_maxPrefix (scan_init ''aaa'')) 0 0,
           scan_positions = scan_positions (scan_init ''aaa''),
           scan_steps = scan_steps (scan_init ''aaa'') @ [st0]\<rparr>"
  have r1: "reachable ''aaa'' ''aa'' [0, 1] s1"
    unfolding s1_def
    by (rule reachable.iterate [OF reachable.start _ first]) (simp add: scan_init_def)
  have h1: "scan_i s1 < int (length ''aaa'')"
      "''aaa'' ! nat (scan_i s1) = ''aa'' ! nat (scan_j s1)"
      "scan_j s1 + 1 = int (length ''aa'')"
    by (simp_all add: s1_def)
  from full_match_iteration [OF bf r1 h1]
  obtain st1 st2 mp where second: "scan_body ''aaa'' ''aa'' [0, 1] s1 =
       Inr \<lparr>scan_i = scan_i s1 + 1, scan_j = [0, 1] ! nat (int (length ''aa'') - 1),
            scan_comparisons = scan_comparisons s1 + 1, scan_maxPrefix = mp,
            scan_positions = scan_positions s1 @ [scan_i s1 + 1 - int (length ''aa'')],
            scan_steps = scan_steps s1 @ [st1, st2]\<rparr>"
    and mp: "\<forall>k. scan_i s1 + 1 - int (length ''aa'') \<le> k \<and> k \<le> scan_i s1 + 1 - 1 \<longrightarrow>
        mp ! nat k = k - (scan_i s1 + 1 - int (length ''aa'')) + 1"
    by blast
  define s2 where "s2 = \<lparr>scan_i = scan_i s1 + 1,
            scan_j = [0, 1] ! nat (int (length ''aa'') - 1),
            scan_comparisons = scan_comparisons s1 + 1, scan_maxPrefix = mp,
            scan_positions = scan_positions s1 @ [scan_i s1 + 1 - int (length ''aa'')],
            scan_steps = scan_steps s1 @ [st1, st2]\<rparr>"
  have r2: "reachable ''aaa'' ''aa'' [0, 1] s2"
    unfolding s2_def by (rule reachable.iterate [OF r1 h1(1) second])
  have ij2: "scan_i s2 = 2" "scan_j s2 = 1"
    by (simp_all add: s2_def s1_def)
  have h2: "scan_i s2 < int (length ''aaa'')"
      "''aaa'' ! nat (scan_i s2) = ''aa'' ! nat (scan_j s2)"
      "scan_j s2 + 1 = int (length ''aa'')"
    by (simp_all add: ij2)
  have before: "scan_maxPrefix s2 ! 1 = 2"
    using mp [rule_format, of 1] by (simp add: s2_def s1_def)
  from full_match_iteration [OF bf r2 h2]
  obtain st3 st4 mp' where third: "scan_body ''aaa'' ''aa'' [0, 1] s2 =
       Inr \<lparr>scan_i = scan_i s2 + 1, scan_j = [0, 1] ! nat (int (length ''aa'') - 1),
            scan_comparisons = scan_comparisons s2 + 1, scan_maxPrefix = mp',
            scan_positions = scan_positions s2 @ [scan_i s2 + 1 - int (length ''aa'')],
            scan_steps = scan_steps s2 @ [st3, st4]\<rparr>"
    and steps: "\<not> Shift st3" "Shift st4" "HighlightPrefixIndex st3 = scan_i s2"
      "HighlightPrefixIndex st4 = - 1"
    and mp': "\<forall>k. scan_i s2 + 1 - int (length ''aa'') \<le> k \<and> k \<le> scan_i s2 + 1 - 1 \<longrightarrow>
        mp' ! nat k = k - (scan_i s2 + 1 - int (length ''aa'')) + 1"
    by blast
  have after: "mp' ! 1 = 1" "mp' ! 2 = 2"
    using mp' [rule_format, of 1] mp' [rule_format, of 2] by (simp_all add: ij2)
  show ?thesis
    using bf r2 h2 third steps before after ij2
    by (intro exI [of _ s2]
        exI [of _ "\<lparr>scan_i = scan_i s2 + 1,
            scan_j = [0, 1] ! nat (int (length ''aa'') - 1),
            scan_comparisons = scan_comparisons s2 + 1, scan_maxPrefix = mp',
            scan_positions = scan_positions s2 @ [scan_i s2 + 1 - int (length ''aa'')],
            scan_steps = scan_steps s2 @ [st3, st4]\<rparr>"])
      simp
qed

text \<open>
  C4. An iteration of the scan, started in a state \<open>s\<close> the loop can be in, in which
  \<open>text[i]\<close> differs from \<open>pattern[j]\<close> and \<open>j > 0\<close>. Exactly two steps are emitted. The first is
  the mismatch: \<open>Shift\<close> false, \<open>HighlightPrefixIndex = i\<close>, \<open>FailureValue = failure[j - 1]\<close>. The
  second is the realignment: \<open>Shift\<close> true, \<open>HighlightPrefixIndex = i\<close>, the new pattern cursor
  \<open>failure[j - 1]\<close> and the snapshot. The text cursor is unchanged and the pattern cursor is
  \<open>failure[j - 1]\<close>, which is smaller than \<open>j\<close>, so the next iteration compares the same text
  position with the new pattern position.
\<close>

theorem mismatch_shift_iteration:
  assumes "buildFailureFunction pattern = Some (Inr failure)"
    and "reachable text pattern failure s"
    and "scan_i s < int (length text)"
    and "text ! nat (scan_i s) \<noteq> pattern ! nat (scan_j s)"
    and "0 < scan_j s"
  shows "\<exists>st st2.
           scan_body text pattern failure s =
             Inr \<lparr>scan_i = scan_i s,
                  scan_j = failure ! nat (scan_j s - 1),
                  scan_comparisons = scan_comparisons s + 1,
                  scan_maxPrefix = scan_maxPrefix s,
                  scan_positions = scan_positions s,
                  scan_steps = scan_steps s @ [st, st2]\<rparr>
         \<and> TextIndex st = scan_i s \<and> PatternIndex st = scan_j s \<and> \<not> Match st \<and> \<not> Shift st
         \<and> HighlightPrefixIndex st = scan_i s
         \<and> FailureValue st = failure ! nat (scan_j s - 1)
         \<and> Step.Comparisons st = scan_comparisons s + 1
         \<and> PrefixFunction st = scan_maxPrefix s
         \<and> TextIndex st2 = scan_i s \<and> PatternIndex st2 = failure ! nat (scan_j s - 1)
         \<and> \<not> Match st2 \<and> Shift st2 \<and> HighlightPrefixIndex st2 = scan_i s
         \<and> Step.Comparisons st2 = scan_comparisons s + 1
         \<and> PrefixFunction st2 = scan_maxPrefix s
         \<and> 0 \<le> failure ! nat (scan_j s - 1) \<and> failure ! nat (scan_j s - 1) < scan_j s"
proof -
  have f: "pattern \<noteq> []" "length failure = length pattern"
      "table_ok pattern failure (length pattern)"
    using buildFailureFunction_Inr [OF assms(1)] by simp_all
  have "kmp_inv text pattern s"
    using reachable_inv [OF f(3,2,1) assms(2)] by simp
  then obtain i j where ij: "scan_i s = int i" "scan_j s = int j"
      and jm: "j < length pattern"
      and mp: "length (scan_maxPrefix s) = length text"
    unfolding kmp_inv_def by blast
  have i: "i < length text" using assms(3) ij by simp
  have ne: "text ! i \<noteq> pattern ! j" using assms(4) ij by simp
  have j: "0 < j" using assms(5) ij by simp
  obtain st st2 where body: "scan_body text pattern failure s =
        Inr \<lparr>scan_i = int i, scan_j = failure ! (j - 1),
             scan_comparisons = scan_comparisons s + 1,
             scan_maxPrefix = scan_maxPrefix s, scan_positions = scan_positions s,
             scan_steps = scan_steps s @ [st, st2]\<rparr>"
      and st: "compare_step s False st" "PrefixFunction st = scan_maxPrefix s"
        "FailureValue st = failure ! (j - 1)"
      and st2: "TextIndex st2 = int i" "PatternIndex st2 = failure ! (j - 1)" "\<not> Match st2"
        "Shift st2" "Step.Comparisons st2 = scan_comparisons s + 1"
        "PrefixFunction st2 = scan_maxPrefix s" "HighlightPrefixIndex st2 = int i"
    using scan_body_mismatch_shift [OF ij i jm mp f(2) ne j] by blast
  have "0 \<le> failure ! nat (int j - 1) \<and> failure ! nat (int j - 1) < int j"
    using table_ok_entry [OF f(3), of "int j"] j jm by simp
  then show ?thesis
    using body st st2 ij
    by (intro exI [of _ st] exI [of _ st2]) (simp add: compare_step_def)
qed

theorem mismatch_shift_iteration_witness:
  "\<exists>s s'. buildFailureFunction ''aa'' = Some (Inr [0, 1])
      \<and> reachable ''ab'' ''aa'' [0, 1] s
      \<and> scan_i s < int (length ''ab'')
      \<and> ''ab'' ! nat (scan_i s) \<noteq> ''aa'' ! nat (scan_j s)
      \<and> 0 < scan_j s
      \<and> scan_body ''ab'' ''aa'' [0, 1] s = Inr s'
      \<and> scan_i s = 1 \<and> scan_j s = 1 \<and> scan_i s' = 1 \<and> scan_j s' = 0
      \<and> scan_comparisons s' = scan_comparisons s + 1
      \<and> map Shift (drop (length (scan_steps s)) (scan_steps s')) = [False, True]"
proof -
  have bf: "buildFailureFunction ''aa'' = Some (Inr [0, 1])"
    by code_simp
  obtain st where first: "scan_body ''ab'' ''aa'' [0, 1] (scan_init ''ab'') =
      Inr \<lparr>scan_i = int 0 + 1, scan_j = int 0 + 1,
           scan_comparisons = scan_comparisons (scan_init ''ab'') + 1,
           scan_maxPrefix = grown (scan_maxPrefix (scan_init ''ab'')) 0 0,
           scan_positions = scan_positions (scan_init ''ab''),
           scan_steps = scan_steps (scan_init ''ab'') @ [st]\<rparr>"
    using scan_body_match [of "scan_init ''ab''" 0 0 "''ab''" "''aa''" "[0, 1]"]
    by (auto simp: scan_init_def)
  define s where "s = \<lparr>scan_i = int 0 + 1, scan_j = int 0 + 1,
           scan_comparisons = scan_comparisons (scan_init ''ab'') + 1,
           scan_maxPrefix = grown (scan_maxPrefix (scan_init ''ab'')) 0 0,
           scan_positions = scan_positions (scan_init ''ab''),
           scan_steps = scan_steps (scan_init ''ab'') @ [st]\<rparr>"
  have r: "reachable ''ab'' ''aa'' [0, 1] s"
    unfolding s_def
    by (rule reachable.iterate [OF reachable.start _ first]) (simp add: scan_init_def)
  have h: "scan_i s < int (length ''ab'')"
      "''ab'' ! nat (scan_i s) \<noteq> ''aa'' ! nat (scan_j s)" "0 < scan_j s"
    by (simp_all add: s_def)
  from mismatch_shift_iteration [OF bf r h]
  obtain st1 st2 where
    "scan_body ''ab'' ''aa'' [0, 1] s =
       Inr \<lparr>scan_i = scan_i s, scan_j = [0, 1] ! nat (scan_j s - 1),
            scan_comparisons = scan_comparisons s + 1,
            scan_maxPrefix = scan_maxPrefix s, scan_positions = scan_positions s,
            scan_steps = scan_steps s @ [st1, st2]\<rparr>"
    "\<not> Shift st1" "Shift st2"
    by blast
  then show ?thesis
    using bf r h
    by (intro exI [of _ s]
        exI [of _ "\<lparr>scan_i = scan_i s, scan_j = [0, 1] ! nat (scan_j s - 1),
            scan_comparisons = scan_comparisons s + 1,
            scan_maxPrefix = scan_maxPrefix s, scan_positions = scan_positions s,
            scan_steps = scan_steps s @ [st1, st2]\<rparr>"])
      (simp add: s_def)
qed

text \<open>
  C5. With an empty pattern \<open>searchKMP\<close> returns the result that carries only the
  empty-pattern error: no table, no steps, no positions, zero comparisons. With a
  non-empty pattern and an empty text it returns the empty-text error result in the same
  way. Neither result holds a step, so no partial trace is produced.
\<close>

theorem searchKMP_empty_inputs:
  "searchKMP text [] =
     Some (Inr \<lparr>FailureFunction = [], Steps = [], Found = False, Positions = [],
                KMPResult.Comparisons = 0, Error = ''Pattern cannot be empty''\<rparr>)
   \<and> (pattern \<noteq> [] \<longrightarrow>
        searchKMP [] pattern =
          Some (Inr \<lparr>FailureFunction = [], Steps = [], Found = False, Positions = [],
                     KMPResult.Comparisons = 0, Error = ''Text cannot be empty''\<rparr>))"
  by (simp add: searchKMP_def)

theorem searchKMP_empty_inputs_witness:
  "searchKMP ''a'' [] =
     Some (Inr \<lparr>FailureFunction = [], Steps = [], Found = False, Positions = [],
                KMPResult.Comparisons = 0, Error = ''Pattern cannot be empty''\<rparr>)
   \<and> ''a'' \<noteq> []
   \<and> searchKMP [] ''a'' =
          Some (Inr \<lparr>FailureFunction = [], Steps = [], Found = False, Positions = [],
                     KMPResult.Comparisons = 0, Error = ''Text cannot be empty''\<rparr>)"
  using searchKMP_empty_inputs [of "''a''" "''a''"] by simp

text \<open>
  C6. For every non-empty text and non-empty pattern, the \<open>Comparisons\<close> fields of the emitted
  steps, in the order of emission, never decrease; there is at least one step, and the
  \<open>Comparisons\<close> field of the result is that of the last step.
\<close>

theorem searchKMP_comparisons:
  assumes "text \<noteq> []" and "pattern \<noteq> []"
  shows "\<exists>r. searchKMP text pattern = Some (Inr r)
           \<and> sorted (map Step.Comparisons (Steps r))
           \<and> Steps r \<noteq> []
           \<and> KMPResult.Comparisons r = Step.Comparisons (last (Steps r))"
proof -
  obtain f s where run: "buildFailureFunction pattern = Some (Inr f)"
      "reachable text pattern f s" "scan_i s = int (length text)"
      "searchKMP text pattern =
         Some (Inr \<lparr>FailureFunction = f, Steps = scan_steps s,
                    Found = (length (scan_positions s) > 0),
                    Positions = scan_positions s,
                    KMPResult.Comparisons = scan_comparisons s, Error = []\<rparr>)"
    using searchKMP_run [OF assms] by blast
  have f: "length f = length pattern" "table_ok pattern f (length pattern)"
    using buildFailureFunction_Inr [OF run(1)] by simp_all
  have tr: "trace_inv text pattern s"
    using reachable_inv [OF f(2,1) assms(2) run(2)] by simp
  have "scan_steps s \<noteq> []"
    using tr run(3) assms(1) by (auto simp: trace_inv_def)
  then show ?thesis
    using tr run(4) by (simp add: trace_inv_def)
qed

theorem searchKMP_comparisons_witness:
  "''aaaa'' \<noteq> [] \<and> ''aa'' \<noteq> [] \<and>
   (\<exists>r. searchKMP ''aaaa'' ''aa'' = Some (Inr r)
      \<and> sorted (map Step.Comparisons (Steps r))
      \<and> Steps r \<noteq> []
      \<and> KMPResult.Comparisons r = Step.Comparisons (last (Steps r)))"
  using searchKMP_comparisons [of "''aaaa''" "''aa''"] by simp

text \<open>
  C7. For every non-empty text and non-empty pattern no access is out of bounds: building the
  table and the whole search end without a panic; in every state the loop can be in with
  \<open>i < n\<close>, the cursors satisfy \<open>0 \<le> i\<close> and \<open>0 \<le> j < m\<close>, the snapshot is as long as the text, and
  the iteration (with its writes to the snapshot) ends without a panic; and every emitted
  step records cursors inside the text and the pattern.
\<close>

theorem searchKMP_in_bounds:
  assumes "text \<noteq> []" and "pattern \<noteq> []"
  shows "\<exists>failure r. buildFailureFunction pattern = Some (Inr failure)
           \<and> searchKMP text pattern = Some (Inr r)
           \<and> (\<forall>s. reachable text pattern failure s \<and> scan_i s < int (length text) \<longrightarrow>
                 0 \<le> scan_i s \<and> 0 \<le> scan_j s \<and> scan_j s < int (length pattern)
                 \<and> length (scan_maxPrefix s) = length text
                 \<and> (\<exists>s'. scan_body text pattern failure s = Inr s'))
           \<and> (\<forall>st\<in>set (Steps r). 0 \<le> TextIndex st \<and> TextIndex st < int (length text)
                 \<and> 0 \<le> PatternIndex st \<and> PatternIndex st < int (length pattern))"
proof -
  obtain f s where run: "buildFailureFunction pattern = Some (Inr f)"
      "reachable text pattern f s" "scan_i s = int (length text)"
      "searchKMP text pattern =
         Some (Inr \<lparr>FailureFunction = f, Steps = scan_steps s,
                    Found = (length (scan_positions s) > 0),
                    Positions = scan_positions s,
                    KMPResult.Comparisons = scan_comparisons s, Error = []\<rparr>)"
    using searchKMP_run [OF assms] by blast
  have f: "length f = length pattern" "table_ok pattern f (length pattern)"
    using buildFailureFunction_Inr [OF run(1)] by simp_all
  have iter: "0 \<le> scan_i s0 \<and> 0 \<le> scan_j s0 \<and> scan_j s0 < int (length pattern)
      \<and> length (scan_maxPrefix s0) = length text
      \<and> (\<exists>s'. scan_body text pattern f s0 = Inr s')"
    if "reachable text pattern f s0 \<and> scan_i s0 < int (length text)" for s0
  proof -
    have inv: "kmp_inv text pattern s0"
      using reachable_inv [OF f(2,1) assms(2)] that by simp
    then have "\<exists>s'. scan_body text pattern f s0 = Inr s'"
      using kmp_inv_step [OF f(2,1) inv] that by blast
    then show ?thesis using inv unfolding kmp_inv_def by auto
  qed
  have "trace_inv text pattern s"
    using reachable_inv [OF f(2,1) assms(2) run(2)] by simp
  then have "\<forall>st\<in>set (scan_steps s). 0 \<le> TextIndex st \<and> TextIndex st < int (length text)
      \<and> 0 \<le> PatternIndex st \<and> PatternIndex st < int (length pattern)"
    by (simp add: trace_inv_def)
  then show ?thesis
    using run(1,4) iter by (intro exI [of _ f]) simp
qed

theorem searchKMP_in_bounds_witness:
  "''aaaa'' \<noteq> [] \<and> ''aa'' \<noteq> [] \<and>
   (\<exists>failure r. buildFailureFunction ''aa'' = Some (Inr failure)
      \<and> searchKMP ''aaaa'' ''aa'' = Some (Inr r)
      \<and> reachable ''aaaa'' ''aa'' failure (scan_init ''aaaa'')
      \<and> scan_i (scan_init ''aaaa'') < int (length ''aaaa'')
      \<and> 0 \<le> scan_j (scan_init ''aaaa'') \<and> scan_j (scan_init ''aaaa'') < int (length ''aa'')
      \<and> (\<exists>s'. scan_body ''aaaa'' ''aa'' failure (scan_init ''aaaa'') = Inr s')
      \<and> (\<forall>st\<in>set (Steps r). 0 \<le> TextIndex st \<and> TextIndex st < int (length ''aaaa'')
            \<and> 0 \<le> PatternIndex st \<and> PatternIndex st < int (length ''aa'')))"
proof -
  have "scan_i (scan_init ''aaaa'') < int (length ''aaaa'')"
    by (simp add: scan_init_def)
  then show ?thesis
    using searchKMP_in_bounds [of "''aaaa''" "''aa''"]
      reachable.start [of "''aaaa''" "''aa''"]
    by fastforce
qed

text \<open>
  C8. \<open>searchKMP\<close> returns for every input, and so does \<open>buildFailureFunction\<close> (on the empty
  pattern with a panic, which \<open>searchKMP\<close> never lets it reach). The reason is the one the
  claim gives: every entry \<open>failure[j - 1]\<close> of the table is smaller than \<open>j\<close>, and each
  iteration of the scan either advances the text cursor by one or leaves it and makes the
  pattern cursor smaller.
\<close>

theorem searchKMP_terminates:
  "(\<exists>r. searchKMP text pattern = Some r)
   \<and> (\<exists>r. buildFailureFunction pattern = Some r)
   \<and> (\<forall>failure j. buildFailureFunction pattern = Some (Inr failure)
          \<and> 0 < j \<and> j \<le> int (length pattern) \<longrightarrow>
          0 \<le> failure ! nat (j - 1) \<and> failure ! nat (j - 1) < j)
   \<and> (\<forall>failure s s'. buildFailureFunction pattern = Some (Inr failure)
          \<and> reachable text pattern failure s \<and> scan_i s < int (length text)
          \<and> scan_body text pattern failure s = Inr s' \<longrightarrow>
          scan_i s' = scan_i s + 1
          \<or> scan_i s' = scan_i s \<and> 0 \<le> scan_j s' \<and> scan_j s' < scan_j s)"
proof -
  have build: "\<exists>r. buildFailureFunction pattern = Some r"
  proof (cases "pattern = []")
    case True
    then show ?thesis
      by (simp add: buildFailureFunction_def make_slice_def assign_def)
  next
    case False
    then show ?thesis using buildFailureFunction_correct by blast
  qed
  have search: "\<exists>r. searchKMP text pattern = Some r"
  proof (cases "pattern = [] \<or> text = []")
    case True
    then show ?thesis by (auto simp: searchKMP_def)
  next
    case False
    then have "text \<noteq> []" and "pattern \<noteq> []" by simp_all
    from searchKMP_run [OF this] show ?thesis by auto
  qed
  have entry: "0 \<le> failure ! nat (j - 1) \<and> failure ! nat (j - 1) < j"
    if "buildFailureFunction pattern = Some (Inr failure) \<and> 0 < j \<and> j \<le> int (length pattern)"
    for failure j
    using table_ok_entry [of pattern failure j] buildFailureFunction_Inr [of pattern failure] that
    by simp
  have progress: "scan_i s' = scan_i s + 1
      \<or> scan_i s' = scan_i s \<and> 0 \<le> scan_j s' \<and> scan_j s' < scan_j s"
    if h: "buildFailureFunction pattern = Some (Inr failure)
        \<and> reachable text pattern failure s \<and> scan_i s < int (length text)
        \<and> scan_body text pattern failure s = Inr s'"
    for failure s s'
  proof -
    have f: "pattern \<noteq> []" "length failure = length pattern"
        "table_ok pattern failure (length pattern)"
      using buildFailureFunction_Inr [of pattern failure] h by simp_all
    have inv: "kmp_inv text pattern s"
      using reachable_inv [OF f(3,2,1)] h by simp
    obtain s1 where s1: "scan_body text pattern failure s = Inr s1" "kmp_inv text pattern s1"
        "scan_i s1 = scan_i s + 1 \<and> scan_j s1 \<le> scan_j s + 1
           \<or> scan_i s1 = scan_i s \<and> scan_j s1 < scan_j s"
      using kmp_inv_step [OF f(3,2) inv] h by blast
    have "s1 = s'" using s1(1) h by simp
    moreover have "0 \<le> scan_j s1" using s1(2) unfolding kmp_inv_def by auto
    ultimately show ?thesis using s1(3) by auto
  qed
  show ?thesis
    using build search entry progress by blast
qed

theorem searchKMP_terminates_witness:
  "(\<exists>r. searchKMP ''ab'' ''ab'' = Some r)
   \<and> (\<exists>failure s'. buildFailureFunction ''ab'' = Some (Inr failure)
        \<and> 0 \<le> failure ! nat (2 - 1) \<and> failure ! nat (2 - 1) < 2
        \<and> reachable ''ab'' ''ab'' failure (scan_init ''ab'')
        \<and> scan_i (scan_init ''ab'') < int (length ''ab'')
        \<and> scan_body ''ab'' ''ab'' failure (scan_init ''ab'') = Inr s'
        \<and> (scan_i s' = scan_i (scan_init ''ab'') + 1
            \<or> scan_i s' = scan_i (scan_init ''ab'') \<and> 0 \<le> scan_j s'
               \<and> scan_j s' < scan_j (scan_init ''ab'')))"
proof -
  obtain f where f: "buildFailureFunction ''ab'' = Some (Inr f)" "length f = length ''ab''"
      "table_ok ''ab'' f (length ''ab'')"
    using buildFailureFunction_correct [of "''ab''"] by auto
  have r: "reachable ''ab'' ''ab'' f (scan_init ''ab'')"
    by (rule reachable.start)
  have lt: "scan_i (scan_init ''ab'') < int (length ''ab'')"
    by (simp add: scan_init_def)
  obtain s' where s': "scan_body ''ab'' ''ab'' f (scan_init ''ab'') = Inr s'"
    using kmp_inv_step [OF f(3,2) _ lt] reachable_inv [OF f(3,2) _ r] by auto
  note t = searchKMP_terminates [of "''ab''" "''ab''"]
  from t have "\<forall>failure j. buildFailureFunction ''ab'' = Some (Inr failure)
      \<and> 0 < j \<and> j \<le> int (length ''ab'') \<longrightarrow>
      0 \<le> failure ! nat (j - 1) \<and> failure ! nat (j - 1) < j"
    by blast
  from this [rule_format, of f 2] have "0 \<le> f ! nat (2 - 1) \<and> f ! nat (2 - 1) < 2"
    using f(1) by simp
  moreover have "scan_i s' = scan_i (scan_init ''ab'') + 1
      \<or> scan_i s' = scan_i (scan_init ''ab'') \<and> 0 \<le> scan_j s'
         \<and> scan_j s' < scan_j (scan_init ''ab'')"
    using t f(1) r lt s' by blast
  ultimately show ?thesis
    using t f(1) r lt s' by blast
qed

text \<open>
  C9. \<open>searchKMP\<close> on the text \<^verbatim>\<open>aaaa\<close> and the pattern \<^verbatim>\<open>aa\<close> reports the positions 0, 1
  and 2. The trace shows why: each full-match step carries the failure value 1, and the
  comparison after it is made at the next text position with pattern cursor 1, not 0.
\<close>

theorem searchKMP_overlapping:
  "\<exists>r. searchKMP ''aaaa'' ''aa'' = Some (Inr r) \<and> Positions r = [0, 1, 2]
      \<and> FailureFunction r = [0, 1]
      \<and> map (\<lambda>s. (TextIndex s, PatternIndex s, Shift s, FailureValue s)) (Steps r) =
          [(0, 0, False, 0), (1, 1, False, 0), (1, 1, True, 1), (2, 1, False, 0),
           (2, 1, True, 1), (3, 1, False, 0), (3, 1, True, 1)]"
proof -
  have "map_option (map_sum id (\<lambda>r. (Positions r, FailureFunction r,
          map (\<lambda>s. (TextIndex s, PatternIndex s, Shift s, FailureValue s)) (Steps r))))
          (searchKMP ''aaaa'' ''aa'') =
        Some (Inr ([0, 1, 2], [0, 1],
          [(0, 0, False, 0), (1, 1, False, 0), (1, 1, True, 1), (2, 1, False, 0),
           (2, 1, True, 1), (3, 1, False, 0), (3, 1, True, 1)]))"
    by code_simp
  then show ?thesis
    by (cases "searchKMP ''aaaa'' ''aa''") (auto simp: map_sum_def split: sum.splits)
qed

end
